theory Spec2Isabelle
  imports Main "HOL-Library.AList"
begin

section \<open>Data model of \<^verbatim>\<open>satsolver.py\<close>\<close>

text \<open>
  Python dictionaries keep insertion order, and the solver depends on it
  (\<^verbatim>\<open>popitem\<close> takes the entry inserted last, \<^verbatim>\<open>next(iter(...))\<close> the one
  inserted first).  A dictionary is therefore an association list in insertion
  order, with pairwise distinct keys:
  \<^item> \<^verbatim>\<open>d[k] = v\<close> is \<open>AList.update k v d\<close> (in place for a key that is present,
    appended at the end otherwise);
  \<^item> \<^verbatim>\<open>del d[k]\<close> is \<open>AList.delete k d\<close>, after the test that \<open>k\<close> is present
    (Python raises \<^verbatim>\<open>KeyError\<close> otherwise);
  \<^item> \<^verbatim>\<open>d.popitem()\<close> returns \<open>last d\<close> and leaves \<open>butlast d\<close>;
  \<^item> \<^verbatim>\<open>{**a, **b}\<close> is \<open>merge a b\<close>.
\<close>

datatype error = UnsatisfiedException | KeyError

text \<open>\<^verbatim>\<open>Clause.variables\<close>: variable number to parity.\<close>

type_synonym clause = "(int \<times> bool) list"

text \<open>\<^verbatim>\<open>Cnf.variables\<close>: variable number to (negative, positive) occurrences.\<close>

type_synonym counters = "(int \<times> (int \<times> int)) list"

text \<open>
  The queue of \<^verbatim>\<open>propagate\<close> and the assignments the solver returns.  The search
  driver also stores the key \<^verbatim>\<open>None\<close> with the value \<^verbatim>\<open>None\<close>, so keys are
  \<open>int option\<close> and values \<open>bool option\<close>.
\<close>

type_synonym assignment = "(int option \<times> bool option) list"

record cnf =
  variables :: counters
  clauses :: "clause list"

definition merge :: "('k \<times> 'v) list \<Rightarrow> ('k \<times> 'v) list \<Rightarrow> ('k \<times> 'v) list" where
  "merge a b = fold (\<lambda>(k, v). AList.update k v) b a"

text \<open>\<^verbatim>\<open>d.get(k, None)\<close> on a dictionary whose values may themselves be \<^verbatim>\<open>None\<close>.\<close>

definition dict_get :: "('k \<times> 'v option) list \<Rightarrow> 'k \<Rightarrow> 'v option" where
  "dict_get d k = (case map_of d k of None \<Rightarrow> None | Some v \<Rightarrow> v)"

section \<open>Construction\<close>


text \<open>The inner loop of \<^verbatim>\<open>Cnf.from_list\<close>: \<^verbatim>\<open>variables[var][par] += 1\<close>.\<close>

fun count_clause :: "counters \<Rightarrow> clause \<Rightarrow> error + counters" where
  "count_clause vs [] = Inr vs"
| "count_clause vs ((var, par) # rest) =
     (case map_of vs var of
        None \<Rightarrow> Inl KeyError
      | Some (n, p) \<Rightarrow>
          count_clause (AList.update var (if par then (n, p + 1) else (n + 1, p)) vs) rest)"

fun count_clauses :: "counters \<Rightarrow> clause list \<Rightarrow> error + counters" where
  "count_clauses vs [] = Inr vs"
| "count_clauses vs (clause # rest) =
     (case count_clause vs clause of
        Inl e \<Rightarrow> Inl e
      | Inr vs' \<Rightarrow> count_clauses vs' rest)"

text \<open>
  \<^verbatim>\<open>Cnf.from_list(clause_list, N)\<close>.  \<^verbatim>\<open>list(set(clause_list))\<close> keeps each clause
  object once (objects hash by identity) in an unspecified order; the model
  takes the clause objects in that order.
\<close>

definition Cnf_from_list :: "clause list \<Rightarrow> int \<Rightarrow> error + cnf" where
  "Cnf_from_list clause_list N =
     (case count_clauses (map (\<lambda>j. (j, (0, 0))) [1..N]) clause_list of
        Inl e \<Rightarrow> Inl e
      | Inr vs \<Rightarrow>
          Inr \<lparr>variables = filter (\<lambda>(v, (n, p)). n \<noteq> 0 \<or> p \<noteq> 0) vs,
               clauses = clause_list\<rparr>)"

section \<open>Propagation\<close>

text \<open>
  The body of the loop of \<^verbatim>\<open>propagate\<close> over the literals of a clause that the
  assumption satisfies (source lines 138 to 182), for a literal \<open>(var, par)\<close>
  other than the assumed variable.  It returns the index and the queue as they
  are when the body ends or raises.
\<close>

definition release_literal ::
  "int \<Rightarrow> bool \<Rightarrow> counters \<Rightarrow> assignment \<Rightarrow> error option \<times> counters \<times> assignment" where
  "release_literal var par vs q =
     (case map_of vs var of
        None \<Rightarrow> (Some KeyError, vs, q)
      | Some (var_neg, var_pos) \<Rightarrow>
          if par then
            (if var_pos - 1 = 0 then
               (if var_neg = 0 then (None, AList.delete var vs, q)
                else if dict_get q (Some var) = None then
                  (None, AList.update var (var_neg, var_pos - 1) vs,
                   AList.update (Some var) (Some False) q)
                else if dict_get q (Some var) = Some True then
                  (Some UnsatisfiedException, vs, q)
                else (None, AList.update var (var_neg, var_pos - 1) vs, q))
             else (None, AList.update var (var_neg, var_pos - 1) vs, q))
          else
            (if var_neg - 1 = 0 then
               (if var_pos = 0 then (None, AList.delete var vs, q)
                else if dict_get q (Some var) = None then
                  (None, AList.update var (var_neg - 1, var_pos) vs,
                   AList.update (Some var) (Some True) q)
                else if dict_get q (Some var) = Some False then
                  (Some UnsatisfiedException, vs, q)
                else (None, AList.update var (var_neg - 1, var_pos) vs, q))
             else (None, AList.update var (var_neg - 1, var_pos) vs, q)))"

text \<open>The loop itself (source lines 133 to 182); it stops where the body raises.\<close>

fun release ::
  "int \<Rightarrow> clause \<Rightarrow> counters \<Rightarrow> assignment \<Rightarrow> error option \<times> counters \<times> assignment" where
  "release assume_var [] vs q = (None, vs, q)"
| "release assume_var ((var, par) # rest) vs q =
     (if var = assume_var then release assume_var rest vs q
      else case release_literal var par vs q of
        (Some e, vs', q') \<Rightarrow> (Some e, vs', q')
      | (None, vs', q') \<Rightarrow> release assume_var rest vs' q')"

text \<open>
  The body of the loop over \<^verbatim>\<open>self.clauses\<close> (source lines 120 to 209) for the
  assumption \<open>assume_var := assume_val\<close> and one clause.  The fourth component is
  what the body appends to \<^verbatim>\<open>new_clauses\<close> (nothing for a clause it drops), the
  fifth the clause object as the body leaves it (\<^verbatim>\<open>del clause.variables[...]\<close>
  shortens it in place).
\<close>

definition scan_clause ::
  "int \<Rightarrow> bool option \<Rightarrow> clause \<Rightarrow> counters \<Rightarrow> assignment \<Rightarrow>
     error option \<times> counters \<times> assignment \<times> clause option \<times> clause" where
  "scan_clause assume_var assume_val clause vs q =
     (case map_of clause assume_var of
        None \<Rightarrow> (None, vs, q, Some clause, clause)
      | Some clause_var \<Rightarrow>
          if Some clause_var = assume_val then
            (case release assume_var clause vs q of
               (r, vs', q') \<Rightarrow> (r, vs', q', None, clause))
          else
            (let shrunk = AList.delete assume_var clause in
             if length shrunk = 0 then (Some UnsatisfiedException, vs, q, None, shrunk)
             else if length shrunk = 1 then
               (case hd shrunk of (var, par) \<Rightarrow>
                  if dict_get q (Some var) = None then
                    (None, vs, AList.update (Some var) (Some par) q, None, shrunk)
                  else if Some par \<noteq> dict_get q (Some var) then
                    (Some UnsatisfiedException, vs, q, None, shrunk)
                  else (None, vs, q, None, shrunk))
             else (None, vs, q, Some shrunk, shrunk)))"

text \<open>
  The loop over \<^verbatim>\<open>self.clauses\<close>.  \<open>new_clauses\<close> is the list the source builds;
  \<open>seen\<close> holds the clauses already visited, as the loop left them: when the
  loop raises, \<^verbatim>\<open>self.clauses\<close> is still the old list, whose clause objects
  have been shortened in place.
\<close>

fun scan ::
  "int \<Rightarrow> bool option \<Rightarrow> clause list \<Rightarrow> counters \<Rightarrow> assignment \<Rightarrow> clause list \<Rightarrow> clause list \<Rightarrow>
     error option \<times> counters \<times> assignment \<times> clause list \<times> clause list" where
  "scan assume_var assume_val [] vs q new_clauses seen = (None, vs, q, new_clauses, seen)"
| "scan assume_var assume_val (clause # rest) vs q new_clauses seen =
     (case scan_clause assume_var assume_val clause vs q of
        (Some e, vs', q', kept, clause') \<Rightarrow> (Some e, vs', q', new_clauses, seen @ clause' # rest)
      | (None, vs', q', None, clause') \<Rightarrow>
          scan assume_var assume_val rest vs' q' new_clauses (seen @ [clause'])
      | (None, vs', q', Some c, clause') \<Rightarrow>
          scan assume_var assume_val rest vs' q' (new_clauses @ [c]) (seen @ [clause']))"

lemma update_length_present:
  "map_of vs k = Some y \<Longrightarrow> length (AList.update k v vs) = length vs"
  by (induction vs) (auto split: if_splits)

lemma release_literal_length:
  "release_literal var par vs q = (r, vs', q') \<Longrightarrow> length vs' \<le> length vs"
  using AList.length_delete_le [of var vs]
  by (auto simp: release_literal_def update_length_present split: option.splits if_splits)

lemma release_length:
  "release a c vs q = (r, vs', q') \<Longrightarrow> length vs' \<le> length vs"
proof (induction c arbitrary: vs q)
  case Nil
  then show ?case by simp
next
  case (Cons l rest)
  obtain var par where l: "l = (var, par)" by (cases l)
  show ?case
  proof (cases "var = a")
    case True
    with Cons l show ?thesis by simp
  next
    case False
    obtain r1 vs1 q1 where s: "release_literal var par vs q = (r1, vs1, q1)"
      by (cases "release_literal var par vs q")
    from release_literal_length [OF s] Cons l False s show ?thesis
      by (cases r1) (auto intro: order_trans)
  qed
qed

lemma scan_clause_length:
  "scan_clause a b c vs q = (r, vs', q', k, c') \<Longrightarrow> length vs' \<le> length vs"
  by (auto simp: scan_clause_def Let_def split: option.splits if_splits prod.splits
      dest: release_length)

lemma scan_length:
  "scan a b cs vs q new seen = (r, vs', q', new', seen') \<Longrightarrow> length vs' \<le> length vs"
proof (induction cs arbitrary: vs q new seen)
  case Nil
  then show ?case by simp
next
  case (Cons c rest)
  obtain r1 vs1 q1 k1 c1 where s: "scan_clause a b c vs q = (r1, vs1, q1, k1, c1)"
    by (cases "scan_clause a b c vs q")
  from scan_clause_length [OF s] have le: "length vs1 \<le> length vs" .
  show ?case
  proof (cases r1)
    case (Some e)
    with Cons.prems s le show ?thesis by simp
  next
    case None
    with Cons.prems s Cons.IH [of vs1 q1] le show ?thesis
      by (cases k1) (auto intro: order_trans)
  qed
qed

text \<open>
  \<^verbatim>\<open>propagate\<close>: the \<^verbatim>\<open>while var_queue\<close> loop, from the assumptions collected so
  far.  \<^verbatim>\<open>del self.variables[assume_var]\<close> raises \<^verbatim>\<open>KeyError\<close> for a key that is
  not in the index (the key \<^verbatim>\<open>None\<close> never is), and the source continues with
  the next entry of the queue.  The result comes with the formula as the call
  leaves it, also when it raises.
\<close>

function propagate_loop ::
  "assignment \<Rightarrow> assignment \<Rightarrow> cnf \<Rightarrow> (error + assignment) \<times> cnf" where
  "propagate_loop var_queue assumptions formula =
     (if var_queue = [] then (Inr assumptions, formula)
      else case last var_queue of (assume_var, assume_val) \<Rightarrow>
        (case assume_var of
           None \<Rightarrow>
             propagate_loop (butlast var_queue)
               (AList.update assume_var assume_val assumptions) formula
         | Some v \<Rightarrow>
             if map_of (variables formula) v = None then
               propagate_loop (butlast var_queue)
                 (AList.update assume_var assume_val assumptions) formula
             else
               (case scan v assume_val (clauses formula) (AList.delete v (variables formula))
                       (butlast var_queue) [] [] of
                  (Some e, vs', q', new_clauses, seen) \<Rightarrow>
                    (Inl e, \<lparr>variables = vs', clauses = seen\<rparr>)
                | (None, vs', q', new_clauses, seen) \<Rightarrow>
                    if length new_clauses = 0 then
                      (Inr (merge (AList.update assume_var assume_val assumptions) q'),
                       \<lparr>variables = vs', clauses = new_clauses\<rparr>)
                    else
                      propagate_loop q' (AList.update assume_var assume_val assumptions)
                        \<lparr>variables = vs', clauses = new_clauses\<rparr>)))"
  by pat_completeness auto

lemma delete_length_present:
  "map_of vs k = Some y \<Longrightarrow> length (AList.delete k vs) < length vs"
  by (induction vs) (auto simp: less_Suc_eq_le AList.length_delete_le split: if_splits)

lemma butlast_length_less: "q \<noteq> [] \<Longrightarrow> length (butlast q) < length q"
  by (cases q rule: rev_cases) auto

termination propagate_loop
proof (relation "measures [\<lambda>(q, a, f). length (variables f), \<lambda>(q, a, f). length q]", goal_cases)
  case 1
  show ?case by simp
next
  case 2
  then show ?case by (simp add: butlast_length_less)
next
  case 3
  then show ?case by (simp add: butlast_length_less)
next
  case 4
  then show ?case
    apply clarsimp
    apply (frule scan_length [OF sym])
    apply (drule delete_length_present)
    apply simp
    done
qed

definition propagate :: "assignment \<Rightarrow> cnf \<Rightarrow> (error + assignment) \<times> cnf" where
  "propagate var_queue formula = propagate_loop var_queue [] formula"

section \<open>Unit propagation\<close>

text \<open>
  The \<^verbatim>\<open>for\<close> loop of \<^verbatim>\<open>unit_propagate\<close>: it raises at an empty clause, stops at
  the first clause with one literal (\<open>Inr (Some (var, par))\<close>), and ends without
  one otherwise (\<open>Inr None\<close>, the \<^verbatim>\<open>else\<close> of the loop).
\<close>

fun find_unit :: "clause list \<Rightarrow> error + (int \<times> bool) option" where
  "find_unit [] = Inr None"
| "find_unit (clause # rest) =
     (if length clause = 0 then Inl UnsatisfiedException
      else if length clause = 1 then Inr (Some (hd clause))
      else find_unit rest)"

text \<open>
  The \<^verbatim>\<open>while True\<close> loop of \<^verbatim>\<open>unit_propagate\<close>.  Nothing in the source bounds
  it: it runs forever on a formula whose unit clause names a variable that is
  not in the index.  A run that does not return is \<open>None\<close>.
\<close>

partial_function (option) unit_propagate_loop ::
  "assignment \<Rightarrow> cnf \<Rightarrow> ((error + assignment) \<times> cnf) option" where
  "unit_propagate_loop assigned formula =
     (if length (clauses formula) = 0 then Some (Inr assigned, formula)
      else case find_unit (clauses formula) of
        Inl e \<Rightarrow> Some (Inl e, formula)
      | Inr None \<Rightarrow> Some (Inr assigned, formula)
      | Inr (Some (var, par)) \<Rightarrow>
          (case propagate [(Some var, Some par)] formula of
             (Inl e, formula') \<Rightarrow> Some (Inl e, formula')
           | (Inr prop, formula') \<Rightarrow> unit_propagate_loop (merge assigned prop) formula'))"

declare unit_propagate_loop.simps [code]

definition unit_propagate :: "cnf \<Rightarrow> ((error + assignment) \<times> cnf) option" where
  "unit_propagate formula = unit_propagate_loop [] formula"

section \<open>Search\<close>

text \<open>
  \<^verbatim>\<open>dynamic_largest\<close>.  The source never assigns \<^verbatim>\<open>M\<close> inside the loop, so \<open>M\<close>
  is passed on unchanged.
\<close>

fun dynamic_largest_loop ::
  "int \<Rightarrow> int option \<times> bool option \<Rightarrow> counters \<Rightarrow> int option \<times> bool option" where
  "dynamic_largest_loop M Mvar [] = Mvar"
| "dynamic_largest_loop M Mvar ((var, (neg, pos)) # rest) =
     (if pos + neg > M then dynamic_largest_loop M (Some var, Some (pos > neg)) rest
      else dynamic_largest_loop M Mvar rest)"

definition dynamic_largest :: "counters \<Rightarrow> int option \<times> bool option" where
  "dynamic_largest vs = dynamic_largest_loop 0 (None, None) vs"

text \<open>
  \<^verbatim>\<open>Clause.__copy__\<close> and \<^verbatim>\<open>Cnf.__copy__\<close>.  On values a copy is the value
  itself; what a copy shares with its original is the subject of the store
  model further down.
\<close>

definition Clause_copy :: "clause \<Rightarrow> clause" where
  "Clause_copy c = c"

definition Cnf_copy :: "cnf \<Rightarrow> cnf" where
  "Cnf_copy formula =
     \<lparr>variables = variables formula, clauses = map Clause_copy (clauses formula)\<rparr>"

text \<open>Python's \<^verbatim>\<open>not\<close> on a value that is a boolean or \<^verbatim>\<open>None\<close>.\<close>

definition py_not :: "bool option \<Rightarrow> bool option" where
  "py_not v = (case v of None \<Rightarrow> Some True | Some b \<Rightarrow> Some (\<not> b))"

text \<open>
  One attempt of \<^verbatim>\<open>dpll\<close> up to its recursive call (source lines 269 to 278 and
  286 to 295): propagate the guess on a copy; \<open>Inr (Inl result)\<close> is the
  immediate return, \<open>Inr (Inr (propagated, new))\<close> asks for the recursive call
  on \<open>new\<close>.
\<close>

definition attempt ::
  "cnf \<Rightarrow> assignment \<Rightarrow> int option \<Rightarrow> bool option \<Rightarrow>
     error + (assignment + assignment \<times> cnf)" where
  "attempt formula vars var val =
     (case propagate [(var, val)] (Cnf_copy formula) of
        (Inl e, new) \<Rightarrow> Inl e
      | (Inr propagated, new) \<Rightarrow>
          if length (clauses new) = 0 then Inr (Inl (merge propagated vars))
          else Inr (Inr (propagated, new)))"

text \<open>
  \<^verbatim>\<open>dpll\<close>.  The \<^verbatim>\<open>try\<close> block catches \<^verbatim>\<open>UnsatisfiedException\<close> only, from the
  propagation of the guess and from the recursive call alike; the second
  attempt is outside it.  The recursion has no bound of its own in the source:
  a run that does not return is \<open>None\<close>.
\<close>

partial_function (option) dpll :: "cnf \<Rightarrow> (error + assignment) option" where
  "dpll formula =
     (case unit_propagate formula of
        None \<Rightarrow> None
      | Some (Inl e, formula') \<Rightarrow> Some (Inl e)
      | Some (Inr vars, formula') \<Rightarrow>
          (case dynamic_largest (variables formula') of (var, assume) \<Rightarrow>
             Option.bind
               (case attempt formula' vars var assume of
                  Inl e \<Rightarrow> Some (Inl e)
                | Inr (Inl result) \<Rightarrow> Some (Inr result)
                | Inr (Inr (propagated, new)) \<Rightarrow>
                    Option.bind (dpll new) (\<lambda>r. case r of
                      Inl e \<Rightarrow> Some (Inl e)
                    | Inr sub \<Rightarrow> Some (Inr (merge vars (merge sub propagated)))))
               (\<lambda>first. case first of
                  Inr result \<Rightarrow> Some (Inr result)
                | Inl KeyError \<Rightarrow> Some (Inl KeyError)
                | Inl UnsatisfiedException \<Rightarrow>
                    (case attempt formula' vars var (py_not assume) of
                       Inl e \<Rightarrow> Some (Inl e)
                     | Inr (Inl result) \<Rightarrow> Some (Inr result)
                     | Inr (Inr (propagated, new)) \<Rightarrow>
                         Option.bind (dpll new) (\<lambda>r. case r of
                           Inl e \<Rightarrow> Some (Inl e)
                         | Inr sub \<Rightarrow> Some (Inr (merge vars (merge sub propagated))))))))"

declare dpll.simps [code]

section \<open>Top level\<close>

text \<open>The scan of \<^verbatim>\<open>solve\<close> for pure variables (source lines 239 to 244).\<close>

fun pure_variables_loop :: "assignment \<Rightarrow> counters \<Rightarrow> assignment" where
  "pure_variables_loop pure [] = pure"
| "pure_variables_loop pure ((var, (n, p)) # rest) =
     (if p = 0 then pure_variables_loop (AList.update (Some var) (Some False) pure) rest
      else if n = 0 then pure_variables_loop (AList.update (Some var) (Some True) pure) rest
      else pure_variables_loop pure rest)"

definition pure_variables :: "counters \<Rightarrow> assignment" where
  "pure_variables vs = pure_variables_loop [] vs"

text \<open>
  What \<^verbatim>\<open>solve\<close> returns is a dictionary whose values are booleans, \<^verbatim>\<open>None\<close>
  (under the key \<^verbatim>\<open>None\<close>) or the integer \<^verbatim>\<open>1\<close> of \<^verbatim>\<open>{0: 1}\<close>.
\<close>

datatype py_value = PyNone | PyBool bool | PyInt int

type_synonym solution = "(int option \<times> py_value) list"

definition py_of :: "bool option \<Rightarrow> py_value" where
  "py_of v = (case v of None \<Rightarrow> PyNone | Some b \<Rightarrow> PyBool b)"

definition as_solution :: "assignment \<Rightarrow> solution" where
  "as_solution a = map (\<lambda>(k, v). (k, py_of v)) a"

definition unsat_sentinel :: solution where
  "unsat_sentinel = [(Some 0, PyInt 1)]"

text \<open>
  \<^verbatim>\<open>solve\<close>: \<^verbatim>\<open>UnsatisfiedException\<close> from either step becomes \<^verbatim>\<open>{0: 1}\<close>; any other
  exception leaves \<^verbatim>\<open>solve\<close>.
\<close>

definition solve :: "cnf \<Rightarrow> (error + solution) option" where
  "solve formula =
     (case propagate (pure_variables (variables formula)) formula of
        (Inl UnsatisfiedException, formula') \<Rightarrow> Some (Inr unsat_sentinel)
      | (Inl KeyError, formula') \<Rightarrow> Some (Inl KeyError)
      | (Inr vars, formula') \<Rightarrow>
          (case dpll formula' of
             None \<Rightarrow> None
           | Some (Inl UnsatisfiedException) \<Rightarrow> Some (Inr unsat_sentinel)
           | Some (Inl KeyError) \<Rightarrow> Some (Inl KeyError)
           | Some (Inr found) \<Rightarrow> Some (Inr (as_solution (merge found vars)))))"

section \<open>Reading a formula\<close>











section \<open>The Formula invariant and the lines of a file\<close>

text \<open>
  The invariant of a Formula as the specification states it: the index has
  one entry for each variable that occurs in a live clause, and the entry
  holds the number of live clauses with the variable at each polarity.
  \<open>occurrences cs v b\<close> is the number of clauses of \<open>cs\<close> that hold \<open>v\<close> with
  polarity \<open>b\<close>.
\<close>

definition occurrences :: "clause list \<Rightarrow> int \<Rightarrow> bool \<Rightarrow> int" where
  "occurrences cs v b = int (length (filter (\<lambda>c. map_of c v = Some b) cs))"

definition formula_invariant :: "cnf \<Rightarrow> bool" where
  "formula_invariant f \<longleftrightarrow>
     distinct (map fst (variables f)) \<and>
     (\<forall>v. case map_of (variables f) v of
            None \<Rightarrow> occurrences (clauses f) v False = 0 \<and> occurrences (clauses f) v True = 0
          | Some (n, p) \<Rightarrow>
              n = occurrences (clauses f) v False \<and> p = occurrences (clauses f) v True \<and>
              (n \<noteq> 0 \<or> p \<noteq> 0))"













section \<open>Sequences of calls of \<^verbatim>\<open>propagate\<close>\<close>

text \<open>
  The formula after the calls \<^verbatim>\<open>propagate(q)\<close> for the queues \<open>q\<close> of a list, one
  after the other on the same Formula object, and the condition that none of
  these calls raises.
\<close>

fun propagate_calls :: "assignment list \<Rightarrow> cnf \<Rightarrow> cnf" where
  "propagate_calls [] f = f"
| "propagate_calls (q # qs) f = propagate_calls qs (snd (propagate q f))"

fun none_raises :: "assignment list \<Rightarrow> cnf \<Rightarrow> bool" where
  "none_raises [] f \<longleftrightarrow> True"
| "none_raises (q # qs) f \<longleftrightarrow>
     (case propagate q f of
        (Inl e, f') \<Rightarrow> False
      | (Inr a, f') \<Rightarrow> none_raises qs f')"

text \<open>
  Inside a call the index runs ahead of the clauses.  \<open>counts_inv X q vs occ\<close>
  relates an index \<open>vs\<close> to the occurrences \<open>occ\<close> in the clauses that are live or
  still to be visited, while the variables of \<open>X\<close> are being eliminated and \<open>q\<close>
  is the queue: a variable outside \<open>X\<close> that is not in the index does not occur,
  the counts of a variable in the index are at least its occurrences, and they
  are its occurrences, not both zero, unless the variable waits in the queue.
\<close>

definition counts_inv ::
  "int set \<Rightarrow> assignment \<Rightarrow> counters \<Rightarrow> (int \<Rightarrow> bool \<Rightarrow> int) \<Rightarrow> bool" where
  "counts_inv X q vs occ \<longleftrightarrow>
     distinct (map fst vs) \<and> (\<forall>v \<in> X. map_of vs v = None) \<and>
     (\<forall>v. v \<notin> X \<longrightarrow> map_of vs v = None \<longrightarrow> occ v False = 0 \<and> occ v True = 0) \<and>
     (\<forall>v n p. v \<notin> X \<longrightarrow> map_of vs v = Some (n, p) \<longrightarrow> occ v False \<le> n \<and> occ v True \<le> p) \<and>
     (\<forall>v n p. v \<notin> X \<longrightarrow> map_of vs v = Some (n, p) \<longrightarrow> Some v \<notin> fst ` set q \<longrightarrow>
        n = occ v False \<and> p = occ v True \<and> (n \<noteq> 0 \<or> p \<noteq> 0))"

text \<open>The occurrences in a list of clauses and one more clause.\<close>

definition plus_clause :: "clause \<Rightarrow> (int \<Rightarrow> bool \<Rightarrow> int) \<Rightarrow> int \<Rightarrow> bool \<Rightarrow> int" where
  "plus_clause c occ u b = occ u b + (if map_of c u = Some b then 1 else 0)"

section \<open>The loop of \<^verbatim>\<open>propagate\<close>, case by case\<close>

lemma scan_clause_kept_length:
  "scan_clause a b c vs q = (r, vs', q', k, c') \<Longrightarrow> length c' \<le> length c"
  using AList.length_delete_le [of a c]
  by (auto simp: scan_clause_def Let_def split: option.splits if_splits prod.splits)

lemma scan_lengths:
  "scan a b cs vs q new seen = (r, vs', q', new', seen') \<Longrightarrow>
     length new' \<le> length new + length cs \<and> length seen' = length seen + length cs"
proof (induction cs arbitrary: vs q new seen)
  case Nil
  then show ?case by simp
next
  case (Cons c rest)
  obtain r1 vs1 q1 k1 c1 where s: "scan_clause a b c vs q = (r1, vs1, q1, k1, c1)"
    by (cases "scan_clause a b c vs q")
  show ?case
  proof (cases r1)
    case (Some e)
    with Cons.prems s show ?thesis by auto
  next
    case None
    show ?thesis
    proof (cases k1)
      case None': None
      from Cons.prems s None None' Cons.IH [of vs1 q1 new "seen @ [c1]"] show ?thesis
        by simp
    next
      case (Some k)
      from Cons.prems s None Some Cons.IH [of vs1 q1 "new @ [k]" "seen @ [c1]"] show ?thesis
        by simp
    qed
  qed
qed

declare propagate_loop.simps [simp del]

lemma propagate_loop_Nil: "propagate_loop [] a f = (Inr a, f)"
  by (simp add: propagate_loop.simps)

lemma propagate_loop_skip:
  assumes "q \<noteq> []" "last q = (k, v)"
    and "k = None \<or> (\<exists>x. k = Some x \<and> map_of (variables f) x = None)"
  shows "propagate_loop q a f = propagate_loop (butlast q) (AList.update k v a) f"
  using assms by (subst propagate_loop.simps) auto

lemma propagate_loop_raise:
  assumes "q \<noteq> []" "last q = (Some x, v)" "map_of (variables f) x \<noteq> None"
    and "scan x v (clauses f) (AList.delete x (variables f)) (butlast q) [] [] =
           (Some e, vs', q', new, seen)"
  shows "propagate_loop q a f = (Inl e, \<lparr>variables = vs', clauses = seen\<rparr>)"
  using assms by (subst propagate_loop.simps) auto

lemma propagate_loop_exit:
  assumes "q \<noteq> []" "last q = (Some x, v)" "map_of (variables f) x \<noteq> None"
    and "scan x v (clauses f) (AList.delete x (variables f)) (butlast q) [] [] =
           (None, vs', q', [], seen)"
  shows "propagate_loop q a f =
           (Inr (merge (AList.update (Some x) v a) q'), \<lparr>variables = vs', clauses = []\<rparr>)"
  using assms by (subst propagate_loop.simps) auto

lemma propagate_loop_step:
  assumes "q \<noteq> []" "last q = (Some x, v)" "map_of (variables f) x \<noteq> None"
    and "scan x v (clauses f) (AList.delete x (variables f)) (butlast q) [] [] =
           (None, vs', q', new, seen)"
    and "new \<noteq> []"
  shows "propagate_loop q a f =
           propagate_loop q' (AList.update (Some x) v a) \<lparr>variables = vs', clauses = new\<rparr>"
  using assms by (subst propagate_loop.simps) auto

lemma propagate_loop_induct [case_names Nil skip raise exit step]:
  assumes Nil: "\<And>a f. P [] a f"
    and skip: "\<And>q k v a f. q \<noteq> [] \<Longrightarrow> last q = (k, v) \<Longrightarrow>
        k = None \<or> (\<exists>x. k = Some x \<and> map_of (variables f) x = None) \<Longrightarrow>
        P (butlast q) (AList.update k v a) f \<Longrightarrow> P q a f"
    and raise: "\<And>q x v a f e vs' q' new seen. q \<noteq> [] \<Longrightarrow> last q = (Some x, v) \<Longrightarrow>
        map_of (variables f) x \<noteq> None \<Longrightarrow>
        scan x v (clauses f) (AList.delete x (variables f)) (butlast q) [] [] =
          (Some e, vs', q', new, seen) \<Longrightarrow> P q a f"
    and exit: "\<And>q x v a f vs' q' seen. q \<noteq> [] \<Longrightarrow> last q = (Some x, v) \<Longrightarrow>
        map_of (variables f) x \<noteq> None \<Longrightarrow>
        scan x v (clauses f) (AList.delete x (variables f)) (butlast q) [] [] =
          (None, vs', q', [], seen) \<Longrightarrow> P q a f"
    and step: "\<And>q x v a f vs' q' new seen. q \<noteq> [] \<Longrightarrow> last q = (Some x, v) \<Longrightarrow>
        map_of (variables f) x \<noteq> None \<Longrightarrow>
        scan x v (clauses f) (AList.delete x (variables f)) (butlast q) [] [] =
          (None, vs', q', new, seen) \<Longrightarrow> new \<noteq> [] \<Longrightarrow>
        P q' (AList.update (Some x) v a) \<lparr>variables = vs', clauses = new\<rparr> \<Longrightarrow> P q a f"
  shows "P q a f"
proof (induction q a f rule: propagate_loop.induct)
  case (1 q a f)
  show ?case
  proof (cases "q = []")
    case True
    then show ?thesis using Nil by simp
  next
    case False
    obtain k v where l: "last q = (k, v)" by (cases "last q")
    show ?thesis
    proof (cases k)
      case None
      have "P (butlast q) (AList.update k v a) f"
        by (rule 1(1) [OF False l [symmetric] None])
      then show ?thesis
        by (rule skip [OF False l disjI1 [OF None]])
    next
      case (Some x)
      note l' = l [unfolded Some]
      show ?thesis
      proof (cases "map_of (variables f) x = None")
        case True
        have "P (butlast q) (AList.update k v a) f"
          by (rule 1(2) [OF False l [symmetric] Some True])
        moreover have "k = None \<or> (\<exists>x. k = Some x \<and> map_of (variables f) x = None)"
          using Some True by simp
        ultimately show ?thesis
          by (rule skip [OF False l, rotated])
      next
        case present: False
        obtain r vs' q' new seen where
          s: "scan x v (clauses f) (AList.delete x (variables f)) (butlast q) [] [] =
                (r, vs', q', new, seen)"
          by (cases "scan x v (clauses f) (AList.delete x (variables f)) (butlast q) [] []")
        show ?thesis
        proof (cases r)
          case (Some e)
          show ?thesis
            by (rule raise [OF False l' present s [unfolded Some]])
        next
          case None
          note s' = s [unfolded None]
          show ?thesis
          proof (cases "new = []")
            case True
            show ?thesis
              by (rule exit [OF False l' present s' [unfolded True]])
          next
            case nonempty: False
            then have len: "length new \<noteq> 0" by simp
            have "P q' (AList.update k v a) \<lparr>variables = vs', clauses = new\<rparr>"
              by (rule 1(3) [OF False l [symmetric] \<open>k = Some x\<close> present s [symmetric]
                    None refl refl refl len])
            then have "P q' (AList.update (Some x) v a) \<lparr>variables = vs', clauses = new\<rparr>"
              unfolding \<open>k = Some x\<close> .
            then show ?thesis
              by (rule step [OF False l' present s' nonempty])
          qed
        qed
      qed
    qed
  qed
qed


lemma propagate_loop_shrinks:
  "length (clauses (snd (propagate_loop q a f))) \<le> length (clauses f) \<and>
   length (variables (snd (propagate_loop q a f))) \<le> length (variables f)"
proof (induction q a f rule: propagate_loop_induct)
  case (Nil a f)
  show ?case by (simp add: propagate_loop_Nil)
next
  case (skip q k v a f)
  then show ?case by (simp add: propagate_loop_skip)
next
  case (raise q x v a f e vs' q' new seen)
  from scan_length [OF raise(4)] scan_lengths [OF raise(4)]
    AList.length_delete_le [of x "variables f"]
  show ?case by (simp add: propagate_loop_raise [OF raise])
next
  case (exit q x v a f vs' q' seen)
  from scan_length [OF exit(4)] AList.length_delete_le [of x "variables f"]
  show ?case by (simp add: propagate_loop_exit [OF exit])
next
  case (step q x v a f vs' q' new seen)
  from scan_length [OF step(4)] scan_lengths [OF step(4)]
    AList.length_delete_le [of x "variables f"] step(6)
  show ?case by (simp add: propagate_loop_step [OF step(1-5)])
qed


section \<open>The branch heuristic\<close>

text \<open>
  What \<open>dynamic_largest\<close> computes: the threshold \<open>M\<close> stays \<open>0\<close>, so every
  variable with a positive sum replaces the choice, and the last one in the
  order of the index is returned.
\<close>

lemma dynamic_largest_loop_last:
  "dynamic_largest_loop 0 Mvar vs =
     (case filter (\<lambda>(v, (n, p)). p + n > 0) vs of
        [] \<Rightarrow> Mvar
      | x # xs \<Rightarrow> (case last (x # xs) of (v, (n, p)) \<Rightarrow> (Some v, Some (p > n))))"
proof (induction vs arbitrary: Mvar)
  case Nil
  then show ?case by simp
next
  case (Cons a vs)
  obtain v n p where a: "a = (v, (n, p))" by (cases a) auto
  show ?case
    by (cases "filter (\<lambda>(v, (n, p)). p + n > 0) vs") (simp_all add: a Cons.IH)
qed

text \<open>
  The clauses \<open>1 \<or> 2\<close>, \<open>\<not>1 \<or> \<not>2\<close>, \<open>\<not>1 \<or> 3\<close>, \<open>1 \<or> \<not>3\<close> over three variables have
  neither a pure variable nor a unit clause; \<open>Cnf_from_list\<close> builds the index
  \<open>1: (2, 2)\<close>, \<open>2: (1, 1)\<close>, \<open>3: (1, 1)\<close> for them.
\<close>

lemma example_index:
  "map_sum id variables
     (Cnf_from_list [[(1, True), (2, True)], [(1, False), (2, False)],
                     [(1, False), (3, True)], [(1, True), (3, False)]] 3)
   = Inr [(1, (2, 2)), (2, (1, 1)), (3, (1, 1))]"
  by (simp add: Cnf_from_list_def upto.simps)

text \<open>
  Claim C5 says that \<open>dynamic_largest\<close> returns the variable with the largest sum
  of negative and positive occurrences.  On the index \<open>1: (2, 2)\<close>, \<open>2: (1, 1)\<close>,
  \<open>3: (1, 1)\<close> variable 1 has the largest sum (4), and the code returns
  variable 3 (sum 2), the last one of the index.
\<close>

theorem dynamic_largest_example:
  "dynamic_largest [(1, (2, 2)), (2, (1, 1)), (3, (1, 1))] = (Some 3, Some False)"
  by (simp add: dynamic_largest_def)

section \<open>Monotonic shrinkage\<close>

text \<open>
  Claim C7: across one call of \<open>propagate\<close>, whether it returns or raises, the
  number of live clauses of the formula does not grow and the number of
  variables in the occurrence index does not grow.  The second component of
  \<open>propagate\<close> is the formula as the call leaves it in both cases.
\<close>
theorem propagate_shrinks:
  "length (clauses (snd (propagate var_queue formula))) \<le> length (clauses formula) \<and>
   length (variables (snd (propagate var_queue formula))) \<le> length (variables formula)"
  unfolding propagate_def by (rule propagate_loop_shrinks)

section \<open>Construction errors\<close>

text \<open>
  \<open>count_clause\<close> succeeds exactly when every variable of the clause is a key of
  the table, and then leaves the keys of the table as they are.
\<close>

lemma update_keys_present:
  "k \<in> fst ` set vs \<Longrightarrow> map fst (AList.update k v vs) = map fst vs"
  by (induction vs) auto

lemma count_clause_result:
  "count_clause vs c =
     (if fst ` set c \<subseteq> fst ` set vs then count_clause vs c else Inl KeyError) \<and>
   (fst ` set c \<subseteq> fst ` set vs \<longrightarrow>
      (\<exists>vs'. count_clause vs c = Inr vs' \<and> map fst vs' = map fst vs))"
proof (induction c arbitrary: vs)
  case Nil
  then show ?case by simp
next
  case (Cons l c)
  obtain var par where l: "l = (var, par)" by (cases l)
  show ?case
  proof (cases "map_of vs var")
    case None
    then have "var \<notin> fst ` set vs" by (simp add: map_of_eq_None_iff)
    with None l show ?thesis by auto
  next
    case (Some np)
    obtain n p where np: "np = (n, p)" by (cases np)
    from Some have var: "var \<in> fst ` set vs"
      by (metis map_of_eq_None_iff option.distinct(1))
    let ?vs = "AList.update var (if par then (n, p + 1) else (n + 1, p)) vs"
    have keys: "map fst ?vs = map fst vs" using var by (rule update_keys_present)
    then have dom: "fst ` set ?vs = fst ` set vs" by (metis list.set_map)
    have step: "count_clause vs (l # c) = count_clause ?vs c"
      using Some np l by simp
    from Cons.IH [of ?vs] show ?thesis
      unfolding step using dom keys var l by auto
  qed
qed

lemma count_clauses_result:
  "(if (\<forall>c \<in> set cs. fst ` set c \<subseteq> fst ` set vs)
    then (\<exists>vs'. count_clauses vs cs = Inr vs' \<and> map fst vs' = map fst vs)
    else count_clauses vs cs = Inl KeyError)"
proof (induction cs arbitrary: vs)
  case Nil
  then show ?case by simp
next
  case (Cons c cs)
  show ?case
  proof (cases "fst ` set c \<subseteq> fst ` set vs")
    case False
    with count_clause_result [of vs c] have "count_clause vs c = Inl KeyError" by metis
    with False show ?thesis by simp
  next
    case True
    with count_clause_result [of vs c] obtain vs' where
      vs': "count_clause vs c = Inr vs'" "map fst vs' = map fst vs" by blast
    then have dom: "fst ` set vs' = fst ` set vs" by (metis list.set_map)
    from Cons.IH [of vs'] show ?thesis
      using True vs' dom by (auto split: if_splits)
  qed
qed

text \<open>
  With the keys of every clause distinct (as in every Python dictionary),
  \<open>count_clause\<close> adds to the counters of a variable the occurrences of the
  variable in the clause.
\<close>

lemma occurrences_Nil [simp]: "occurrences [] v b = 0"
  by (simp add: occurrences_def)

lemma occurrences_Cons:
  "occurrences (c # cs) v b = (if map_of c v = Some b then 1 else 0) + occurrences cs v b"
  by (simp add: occurrences_def)

lemma count_clause_counts:
  assumes "distinct (map fst c)" "count_clause vs c = Inr vs'"
  shows "map_of vs' v =
           map_option (\<lambda>(n, p). (n + (if map_of c v = Some False then 1 else 0),
                                   p + (if map_of c v = Some True then 1 else 0)))
             (map_of vs v)"
  using assms
proof (induction c arbitrary: vs)
  case Nil
  then show ?case by (simp add: option.map_ident split_def)
next
  case (Cons l c)
  obtain var par where l: "l = (var, par)" by (cases l)
  from Cons.prems l obtain n p where np: "map_of vs var = Some (n, p)"
    by (auto split: option.splits)
  let ?vs = "AList.update var (if par then (n, p + 1) else (n + 1, p)) vs"
  from Cons.prems l np have step: "count_clause ?vs c = Inr vs'" by simp
  from Cons.prems l have d: "distinct (map fst c)" and notin: "map_of c var = None"
    by (auto simp: map_of_eq_None_iff)
  from Cons.IH [OF d step] have IH: "map_of vs' v =
      map_option (\<lambda>(n, p). (n + (if map_of c v = Some False then 1 else 0),
                              p + (if map_of c v = Some True then 1 else 0)))
        (map_of ?vs v)" .
  show ?case
  proof (cases "v = var")
    case True
    then show ?thesis
      using IH notin np l by (simp add: AList.update_conv')
  next
    case False
    then show ?thesis
      using IH l by (simp add: AList.update_conv')
  qed
qed

lemma count_clauses_counts:
  assumes "\<forall>c \<in> set cs. distinct (map fst c)" "count_clauses vs cs = Inr vs'"
  shows "map_of vs' v =
           map_option (\<lambda>(n, p). (n + occurrences cs v False, p + occurrences cs v True))
             (map_of vs v)"
  using assms
proof (induction cs arbitrary: vs)
  case Nil
  then show ?case by (simp add: option.map_ident split_def)
next
  case (Cons c cs)
  from Cons.prems obtain vs1 where c: "count_clause vs c = Inr vs1"
    and rest: "count_clauses vs1 cs = Inr vs'"
    by (auto split: sum.splits)
  from Cons.prems have dc: "distinct (map fst c)" and dcs: "\<forall>c \<in> set cs. distinct (map fst c)"
    by simp_all
  show ?case
    unfolding Cons.IH [OF dcs rest] count_clause_counts [OF dc c]
    by (cases "map_of vs v") (auto simp: occurrences_Cons)
qed

lemma map_of_filter_values:
  "distinct (map fst vs) \<Longrightarrow>
   map_of (filter (\<lambda>(k, x). Q x) vs) v =
     (case map_of vs v of None \<Rightarrow> None | Some x \<Rightarrow> if Q x then Some x else None)"
proof (induction vs)
  case Nil
  then show ?case by simp
next
  case (Cons a vs)
  obtain k x where a: "a = (k, x)" by (cases a)
  from Cons.prems a have "map_of vs k = None" by (auto simp: map_of_eq_None_iff)
  with Cons a show ?case by (auto split: option.splits)
qed


lemma map_of_zero_table:
  "map_of (map (\<lambda>j. (j, (0::int, 0::int))) [1..N]) v = (if 1 \<le> v \<and> v \<le> N then Some (0, 0) else None)"
proof -
  have "map_of (map (\<lambda>j. (j, (0::int, 0::int))) [1..N]) = (\<lambda>v. if v \<in> set [1..N] then Some (0, 0) else None)"
    by (induction "[1..N]" arbitrary: N) (auto simp: map_of_map_restrict restrict_map_def)
  then show ?thesis by simp
qed

lemma occurrences_absent:
  "\<forall>c \<in> set cs. v \<notin> fst ` set c \<Longrightarrow> occurrences cs v b = 0"
  by (induction cs) (auto simp: occurrences_Cons map_of_eq_None_iff [symmetric])

lemma occurrences_nonneg: "0 \<le> occurrences cs v b"
  by (simp add: occurrences_def)

lemma Cnf_from_list_invariant:
  assumes d: "\<forall>c \<in> set cl. distinct (map fst c)"
    and ids: "\<forall>c \<in> set cl. \<forall>l \<in> set c. 1 \<le> fst l \<and> fst l \<le> N"
  shows "\<exists>f. Cnf_from_list cl N = Inr f \<and> clauses f = cl \<and> formula_invariant f"
proof -
  let ?vs = "map (\<lambda>j. (j, (0::int, 0::int))) [1..N]"
  let ?Q = "\<lambda>x :: int \<times> int. fst x \<noteq> 0 \<or> snd x \<noteq> 0"
  have dom: "fst ` set ?vs = {1..N}" by force
  from ids have "\<forall>c \<in> set cl. fst ` set c \<subseteq> fst ` set ?vs"
    unfolding dom by fastforce
  with count_clauses_result [of cl ?vs] obtain vs' where
    vs': "count_clauses ?vs cl = Inr vs'" and keys: "map fst vs' = map fst ?vs" by auto
  have dist: "distinct (map fst vs')" unfolding keys by (simp add: comp_def)
  have flt: "filter (\<lambda>(v, (n, p)). n \<noteq> 0 \<or> p \<noteq> 0) vs' = filter (\<lambda>(k, x). ?Q x) vs'"
    by (rule filter_cong) auto
  let ?f = "\<lparr>variables = filter (\<lambda>(k, x). ?Q x) vs', clauses = cl\<rparr>"
  have res: "Cnf_from_list cl N = Inr ?f"
    using vs' flt by (simp add: Cnf_from_list_def)
  have counts: "map_of vs' v =
      (if 1 \<le> v \<and> v \<le> N then Some (occurrences cl v False, occurrences cl v True) else None)" for v
    unfolding count_clauses_counts [OF d vs'] map_of_zero_table by simp
  have outside: "occurrences cl v b = 0" if "\<not> (1 \<le> v \<and> v \<le> N)" for v b
  proof (rule occurrences_absent)
    show "\<forall>c \<in> set cl. v \<notin> fst ` set c" using ids that by fastforce
  qed
  have A: "distinct (map fst (filter (\<lambda>(k, x). ?Q x) vs'))"
    using dist by (rule distinct_map_filter)
  have B: "case map_of (filter (\<lambda>(k, x). ?Q x) vs') v of
            None \<Rightarrow> occurrences cl v False = 0 \<and> occurrences cl v True = 0
          | Some (n, p) \<Rightarrow>
              n = occurrences cl v False \<and> p = occurrences cl v True \<and> (n \<noteq> 0 \<or> p \<noteq> 0)" for v
    unfolding map_of_filter_values [OF dist] counts
    using outside [of v] by auto
  have "formula_invariant ?f"
    unfolding formula_invariant_def cnf.select_convs
  proof (intro conjI allI)
    show "distinct (map fst (filter (\<lambda>(k, x). ?Q x) vs'))" by (rule A)
  next
    fix v
    show "case map_of (filter (\<lambda>(k, x). ?Q x) vs') v of
            None \<Rightarrow> occurrences cl v False = 0 \<and> occurrences cl v True = 0
          | Some (n, p) \<Rightarrow>
              n = occurrences cl v False \<and> p = occurrences cl v True \<and> (n \<noteq> 0 \<or> p \<noteq> 0)"
      by (rule B)
  qed
  with res show ?thesis by simp
qed































section \<open>Facts about dictionaries\<close>

lemma merge_Nil [simp]: "merge a [] = a"
  by (simp add: merge_def)

lemma map_of_merge_rev:
  "map_of (merge a b) k = (case map_of (rev b) k of None \<Rightarrow> map_of a k | Some v \<Rightarrow> Some v)"
  unfolding merge_def
proof (induction b arbitrary: a rule: rev_induct)
  case Nil
  then show ?case by simp
next
  case (snoc x xs)
  obtain k' v' where x: "x = (k', v')" by (cases x)
  show ?case
    by (auto simp: x snoc.IH AList.update_conv' split: option.splits)
qed

lemma map_of_rev_distinct:
  "distinct (map fst b) \<Longrightarrow> map_of (rev b) = map_of b"
proof (induction b)
  case Nil
  then show ?case by simp
next
  case (Cons x b)
  obtain k v where x: "x = (k, v)" by (cases x)
  from Cons.prems x have "map_of b k = None" by (auto simp: map_of_eq_None_iff)
  with Cons x show ?case
    by (auto simp: fun_eq_iff map_add_def split: option.splits)
qed

lemma map_of_merge:
  "distinct (map fst b) \<Longrightarrow>
   map_of (merge a b) k = (case map_of b k of None \<Rightarrow> map_of a k | Some v \<Rightarrow> Some v)"
  by (simp add: map_of_merge_rev map_of_rev_distinct)

section \<open>Pure-literal elimination\<close>

text \<open>What the scan for pure variables collects, from a dictionary \<open>pure\<close>.\<close>

lemma pure_variables_loop_map_of:
  "distinct (map fst vs) \<Longrightarrow>
   map_of (pure_variables_loop pure vs) k =
     (case k of
        None \<Rightarrow> map_of pure None
      | Some v \<Rightarrow>
          (case map_of vs v of
             None \<Rightarrow> map_of pure (Some v)
           | Some (n, p) \<Rightarrow>
               if p = 0 then Some (Some False)
               else if n = 0 then Some (Some True)
               else map_of pure (Some v)))"
proof (induction vs arbitrary: pure k)
  case Nil
  then show ?case by (simp split: option.splits)
next
  case (Cons a vs)
  obtain var n p where a: "a = (var, (n, p))" by (cases a) auto
  from Cons.prems a have notin: "map_of vs var = None" and d: "distinct (map fst vs)"
    by (auto simp: map_of_eq_None_iff)
  show ?case
  proof (cases k)
    case None
    then show ?thesis
      by (simp add: a Cons.IH [OF d] AList.update_conv')
  next
    case (Some v)
    show ?thesis
    proof (cases "v = var")
      case True
      then show ?thesis
        using notin by (simp add: a Some Cons.IH [OF d] AList.update_conv')
    next
      case False
      then show ?thesis
        by (simp add: a Some Cons.IH [OF d] AList.update_conv' split: option.splits)
    qed
  qed
qed

text \<open>
  Claim C6: before the search driver is entered, \<open>solve\<close> scans the occurrence
  index once and collects every variable with a zero count for one polarity,
  forced to \<open>False\<close> when its positive count is zero and to \<open>True\<close> when (only) its
  negative count is zero; it submits the whole dictionary in a single call of
  \<open>propagate\<close>, and \<open>dpll\<close> runs on the formula that this call leaves.  The
  dictionary is a function of the index as it is before the call, so variables
  that become pure during the call are not part of it.
\<close>

theorem pure_literal_pass:
  assumes "distinct (map fst (variables formula))"
  shows "map_of (pure_variables (variables formula)) (Some v) =
           (case map_of (variables formula) v of
              None \<Rightarrow> None
            | Some (n, p) \<Rightarrow>
                if p = 0 then Some (Some False)
                else if n = 0 then Some (Some True)
                else None) \<and>
         map_of (pure_variables (variables formula)) None = None \<and>
         solve formula =
           (case propagate (pure_variables (variables formula)) formula of
              (Inl UnsatisfiedException, formula') \<Rightarrow> Some (Inr unsat_sentinel)
            | (Inl KeyError, formula') \<Rightarrow> Some (Inl KeyError)
            | (Inr vars, formula') \<Rightarrow>
                map_option
                  (\<lambda>r. case r of
                     Inl UnsatisfiedException \<Rightarrow> Inr unsat_sentinel
                   | Inl KeyError \<Rightarrow> Inl KeyError
                   | Inr found \<Rightarrow> Inr (as_solution (merge found vars)))
                  (dpll formula'))"
proof -
  have "solve formula =
           (case propagate (pure_variables (variables formula)) formula of
              (Inl UnsatisfiedException, formula') \<Rightarrow> Some (Inr unsat_sentinel)
            | (Inl KeyError, formula') \<Rightarrow> Some (Inl KeyError)
            | (Inr vars, formula') \<Rightarrow>
                map_option
                  (\<lambda>r. case r of
                     Inl UnsatisfiedException \<Rightarrow> Inr unsat_sentinel
                   | Inl KeyError \<Rightarrow> Inl KeyError
                   | Inr found \<Rightarrow> Inr (as_solution (merge found vars)))
                  (dpll formula'))"
    by (simp add: solve_def split: prod.splits sum.splits error.splits option.splits)
  then show ?thesis
    using pure_variables_loop_map_of [OF assms, of "[]"]
    by (simp add: pure_variables_def split: option.splits)
qed

text \<open>
  The claim on the index \<open>1: (1, 1)\<close>, \<open>2: (0, 1)\<close>, \<open>3: (2, 0)\<close>: variable 2 is forced
  to \<open>True\<close>, variable 3 to \<open>False\<close>, variable 1 is not collected.
\<close>

theorem pure_literal_pass_witness:
  "map_of (pure_variables [(1, (1, 1)), (2, (0, 1)), (3, (2, 0))]) (Some 2) = Some (Some True) \<and>
   map_of (pure_variables [(1, (1, 1)), (2, (0, 1)), (3, (2, 0))]) (Some 3) = Some (Some False) \<and>
   map_of (pure_variables [(1, (1, 1)), (2, (0, 1)), (3, (2, 0))]) (Some 1) = None"
  using pure_literal_pass [of "\<lparr>variables = [(1, (1, 1)), (2, (0, 1)), (3, (2, 0))],
      clauses = [[(1, True), (3, False)], [(1, False), (2, True), (3, False)]]\<rparr>" 2]
    pure_literal_pass [of "\<lparr>variables = [(1, (1, 1)), (2, (0, 1)), (3, (2, 0))],
      clauses = [[(1, True), (3, False)], [(1, False), (2, True), (3, False)]]\<rparr>" 3]
    pure_literal_pass [of "\<lparr>variables = [(1, (1, 1)), (2, (0, 1)), (3, (2, 0))],
      clauses = [[(1, True), (3, False)], [(1, False), (2, True), (3, False)]]\<rparr>" 1]
  by simp

section \<open>The search driver when unit propagation solves the formula\<close>

text \<open>
  With no live clause, \<open>propagate\<close> of a single assumption returns that
  assumption alone: either its variable is not in the index and the source
  continues to the end of the queue, or the loop over no clauses leaves
  \<^verbatim>\<open>new_clauses\<close> empty and the call returns at once.
\<close>

lemma propagate_no_clauses:
  assumes "clauses f = []"
  shows "fst (propagate [(var, val)] f) = Inr [(var, val)] \<and>
         clauses (snd (propagate [(var, val)] f)) = []"
proof (cases "var = None \<or> (\<exists>x. var = Some x \<and> map_of (variables f) x = None)")
  case True
  have "propagate_loop [(var, val)] [] f = propagate_loop [] (AList.update var val []) f"
    using propagate_loop_skip [of "[(var, val)]" var val f "[]"] True by simp
  then show ?thesis
    using assms by (simp add: propagate_def propagate_loop_Nil)
next
  case False
  then obtain x where x: "var = Some x" "map_of (variables f) x \<noteq> None" by auto
  have "propagate_loop [(Some x, val)] [] f =
      (Inr (merge (AList.update (Some x) val []) []),
       \<lparr>variables = AList.delete x (variables f), clauses = []\<rparr>)"
    by (rule propagate_loop_exit [where seen = "[]"]) (use x assms in simp_all)
  then show ?thesis
    using x by (simp add: propagate_def)
qed

lemma Cnf_copy_id [simp]: "Cnf_copy f = f"
proof -
  have "map Clause_copy xs = xs" for xs
    by (induction xs) (simp_all add: Clause_copy_def)
  then show ?thesis by (simp add: Cnf_copy_def)
qed

text \<open>
  \<open>dpll\<close> has no test between \<open>unit_propagate\<close> and the choice of the branching
  variable.  When unit propagation leaves no live clause, \<open>dpll\<close> still
  propagates the choice of \<open>dynamic_largest\<close> on a copy and returns that
  one-entry dictionary overlaid with the assignments of unit propagation.
\<close>

lemma dpll_after_solving_units:
  assumes "unit_propagate formula = Some (Inr vars, formula')"
    and "clauses formula' = []"
  shows "dpll formula = Some (Inr (merge [dynamic_largest (variables formula')] vars))"
proof -
  obtain var guess where dl: "dynamic_largest (variables formula') = (var, guess)"
    by (cases "dynamic_largest (variables formula')")
  obtain r new where p: "propagate [(var, guess)] formula' = (r, new)"
    by (cases "propagate [(var, guess)] formula'")
  from propagate_no_clauses [OF assms(2), of var guess] p
  have r: "r = Inr [(var, guess)]" and new: "clauses new = []" by simp_all
  have "attempt formula' vars var guess = Inr (Inl (merge [(var, guess)] vars))"
    by (simp add: attempt_def p r new)
  then show ?thesis
    using assms(1) dl by (subst dpll.simps) simp
qed

text \<open>Unit propagation on the single clause \<open>1\<close> assigns variable 1 and empties the formula.\<close>

lemma unit_propagate_single:
  "unit_propagate \<lparr>variables = [(1, (0, 1))], clauses = [[(1, True)]]\<rparr> =
     Some (Inr [(Some 1, Some True)], \<lparr>variables = [], clauses = []\<rparr>)"
  by (simp add: unit_propagate_def unit_propagate_loop.simps propagate_def
      propagate_loop.simps scan_clause_def release_literal_def dict_get_def merge_def)

text \<open>
  Claim C4 says that \<open>dpll\<close> returns exactly the assignment accumulated by unit
  propagation when no live clause remains, with no branching step and no extra
  entry.  On the formula with the single clause \<open>1\<close> unit propagation returns
  \<open>{1: True}\<close> and leaves no clause and an empty index, and \<open>dpll\<close> returns
  \<open>{None: None, 1: True}\<close>.
\<close>

theorem dpll_early_return_counterexample:
  "unit_propagate \<lparr>variables = [(1, (0, 1))], clauses = [[(1, True)]]\<rparr> =
     Some (Inr [(Some 1, Some True)], \<lparr>variables = [], clauses = []\<rparr>) \<and>
   dpll \<lparr>variables = [(1, (0, 1))], clauses = [[(1, True)]]\<rparr> =
     Some (Inr [(None, None), (Some 1, Some True)])"
  using dpll_after_solving_units [OF unit_propagate_single] unit_propagate_single
  by (simp add: dynamic_largest_def merge_def)

text \<open>
  Claim C4 as amended: when no live clause remains after \<open>unit_propagate\<close>,
  \<open>dpll\<close> returns the one-entry dictionary of the choice of \<open>dynamic_largest\<close>
  (on the index that unit propagation leaves) overlaid with the assignment
  accumulated by unit propagation.
\<close>

theorem dpll_no_early_return:
  assumes "unit_propagate formula = Some (Inr vars, formula')"
    and "clauses formula' = []"
  shows "dpll formula = Some (Inr (merge [dynamic_largest (variables formula')] vars))"
  using assms by (rule dpll_after_solving_units)

text \<open>The amended claim on the formula with the single clause \<open>1\<close>.\<close>

theorem dpll_no_early_return_witness:
  "dpll \<lparr>variables = [(1, (0, 1))], clauses = [[(1, True)]]\<rparr> =
     Some (Inr (merge [dynamic_largest []] [(Some 1, Some True)]))"
  using dpll_no_early_return [OF unit_propagate_single] by simp

section \<open>Preservation of the Formula invariant\<close>

text \<open>The invariant of a Formula is \<open>counts_inv\<close> with nothing eliminated and no queue.\<close>

lemma counts_invI:
  assumes "distinct (map fst vs)" "\<And>v. v \<in> X \<Longrightarrow> map_of vs v = None"
    and "\<And>v. v \<notin> X \<Longrightarrow> map_of vs v = None \<Longrightarrow> occ v False = 0 \<and> occ v True = 0"
    and "\<And>v n p. v \<notin> X \<Longrightarrow> map_of vs v = Some (n, p) \<Longrightarrow> occ v False \<le> n \<and> occ v True \<le> p"
    and "\<And>v n p. v \<notin> X \<Longrightarrow> map_of vs v = Some (n, p) \<Longrightarrow> Some v \<notin> fst ` set q \<Longrightarrow>
           n = occ v False \<and> p = occ v True \<and> (n \<noteq> 0 \<or> p \<noteq> 0)"
  shows "counts_inv X q vs occ"
  unfolding counts_inv_def using assms by blast

lemma counts_invD:
  assumes "counts_inv X q vs occ"
  shows "distinct (map fst vs)"
    and "v \<in> X \<Longrightarrow> map_of vs v = None"
    and "v \<notin> X \<Longrightarrow> map_of vs v = None \<Longrightarrow> occ v False = 0 \<and> occ v True = 0"
    and "v \<notin> X \<Longrightarrow> map_of vs v = Some (n, p) \<Longrightarrow> occ v False \<le> n \<and> occ v True \<le> p"
    and "v \<notin> X \<Longrightarrow> map_of vs v = Some (n, p) \<Longrightarrow> Some v \<notin> fst ` set q \<Longrightarrow>
           n = occ v False \<and> p = occ v True \<and> (n \<noteq> 0 \<or> p \<noteq> 0)"
  using assms unfolding counts_inv_def by blast+

lemma formula_invariant_counts:
  "formula_invariant f \<longleftrightarrow> counts_inv {} [] (variables f) (occurrences (clauses f))"
proof
  assume inv: "formula_invariant f"
  then have d: "distinct (map fst (variables f))" by (simp add: formula_invariant_def)
  from inv have all: "case map_of (variables f) v of
            None \<Rightarrow> occurrences (clauses f) v False = 0 \<and> occurrences (clauses f) v True = 0
          | Some (n, p) \<Rightarrow>
              n = occurrences (clauses f) v False \<and> p = occurrences (clauses f) v True \<and>
              (n \<noteq> 0 \<or> p \<noteq> 0)" for v
    unfolding formula_invariant_def by blast
  show "counts_inv {} [] (variables f) (occurrences (clauses f))"
  proof (rule counts_invI)
    show "distinct (map fst (variables f))" by (rule d)
  next
    fix v :: int assume "v \<in> {}"
    then show "map_of (variables f) v = None" by simp
  next
    fix v assume "map_of (variables f) v = None"
    with all [of v] show "occurrences (clauses f) v False = 0 \<and> occurrences (clauses f) v True = 0"
      by simp
  next
    fix v n p assume "map_of (variables f) v = Some (n, p)"
    with all [of v] show "occurrences (clauses f) v False \<le> n \<and> occurrences (clauses f) v True \<le> p"
      by simp
  next
    fix v n p assume "map_of (variables f) v = Some (n, p)"
    with all [of v] show "n = occurrences (clauses f) v False \<and> p = occurrences (clauses f) v True \<and>
        (n \<noteq> 0 \<or> p \<noteq> 0)"
      by auto
  qed
next
  assume c: "counts_inv {} [] (variables f) (occurrences (clauses f))"
  show "formula_invariant f"
    unfolding formula_invariant_def
  proof (intro conjI allI)
    show "distinct (map fst (variables f))" using c by (rule counts_invD)
  next
    fix v
    show "case map_of (variables f) v of
            None \<Rightarrow> occurrences (clauses f) v False = 0 \<and> occurrences (clauses f) v True = 0
          | Some (n, p) \<Rightarrow>
              n = occurrences (clauses f) v False \<and> p = occurrences (clauses f) v True \<and>
              (n \<noteq> 0 \<or> p \<noteq> 0)"
    proof (cases "map_of (variables f) v")
      case None
      with counts_invD(3) [OF c, of v] show ?thesis by simp
    next
      case (Some np)
      obtain n p where "np = (n, p)" by (cases np)
      with Some counts_invD(5) [OF c, of v n p] show ?thesis by auto
    qed
  qed
qed

text \<open>The invariant reads the occurrences of the variables outside \<open>X\<close> only.\<close>

lemma counts_inv_cong:
  assumes "counts_inv X q vs occ" "\<And>v b. v \<notin> X \<Longrightarrow> occ' v b = occ v b"
  shows "counts_inv X q vs occ'"
proof (rule counts_invI)
  show "distinct (map fst vs)" using assms(1) by (rule counts_invD)
  show "map_of vs v = None" if "v \<in> X" for v using assms(1) that by (rule counts_invD)
  show "occ' v False = 0 \<and> occ' v True = 0" if "v \<notin> X" "map_of vs v = None" for v
    using counts_invD(3) [OF assms(1) that] assms(2) [OF that(1)] by simp
  show "occ' v False \<le> n \<and> occ' v True \<le> p" if "v \<notin> X" "map_of vs v = Some (n, p)" for v n p
    using counts_invD(4) [OF assms(1) that] assms(2) [OF that(1)] by simp
  show "n = occ' v False \<and> p = occ' v True \<and> (n \<noteq> 0 \<or> p \<noteq> 0)"
    if "v \<notin> X" "map_of vs v = Some (n, p)" "Some v \<notin> fst ` set q" for v n p
    using counts_invD(5) [OF assms(1) that] assms(2) [OF that(1)] by auto
qed

text \<open>A queue in which no variable of the index loses its entry.\<close>

lemma counts_inv_queue:
  assumes "counts_inv X q vs occ"
    and "\<And>v. v \<notin> X \<Longrightarrow> map_of vs v \<noteq> None \<Longrightarrow> Some v \<in> fst ` set q \<Longrightarrow> Some v \<in> fst ` set q'"
  shows "counts_inv X q' vs occ"
proof (rule counts_invI)
  show "distinct (map fst vs)" using assms(1) by (rule counts_invD)
  show "map_of vs v = None" if "v \<in> X" for v using assms(1) that by (rule counts_invD)
  show "occ v False = 0 \<and> occ v True = 0" if "v \<notin> X" "map_of vs v = None" for v
    using assms(1) that by (rule counts_invD)
  show "occ v False \<le> n \<and> occ v True \<le> p" if "v \<notin> X" "map_of vs v = Some (n, p)" for v n p
    using assms(1) that by (rule counts_invD)
next
  fix v n p
  assume v: "v \<notin> X" "map_of vs v = Some (n, p)" and nq: "Some v \<notin> fst ` set q'"
  with assms(2) [of v] have "Some v \<notin> fst ` set q" by auto
  with assms(1) v show "n = occ v False \<and> p = occ v True \<and> (n \<noteq> 0 \<or> p \<noteq> 0)"
    by (rule counts_invD)
qed


text \<open>
  A satisfied clause is dropped literal by literal.  \<open>occ\<close> counts the literal
  \<open>(v, par)\<close> still, \<open>occ'\<close> no longer.
\<close>

lemma counts_inv_delete:
  assumes inv: "counts_inv X q vs occ" and v: "v \<notin> X"
    and occ': "\<And>u b. occ' u b = occ u b - (if u = v \<and> b = par then 1 else 0)"
    and nonneg: "\<And>b. 0 \<le> occ' v b"
    and entry: "map_of vs v = Some (n, p)"
    and zero: "n - (if par then 0 else 1) = 0" "p - (if par then 1 else 0) = 0"
  shows "counts_inv X q (AList.delete v vs) occ'"
proof (rule counts_invI)
  show "distinct (map fst (AList.delete v vs))"
    using counts_invD(1) [OF inv] by (rule AList.distinct_delete)
  show "map_of (AList.delete v vs) u = None" if "u \<in> X" for u
    using counts_invD(2) [OF inv that] by (simp add: AList.delete_conv')
next
  fix u assume u: "u \<notin> X" "map_of (AList.delete v vs) u = None"
  show "occ' u False = 0 \<and> occ' u True = 0"
  proof (cases "u = v")
    case True
    from counts_invD(4) [OF inv v entry] zero nonneg [of False] nonneg [of True]
    show ?thesis unfolding True occ' by (cases par) auto
  next
    case False
    with u have "map_of vs u = None" by (simp add: AList.delete_conv')
    with counts_invD(3) [OF inv u(1)] False show ?thesis by (simp add: occ')
  qed
next
  fix u n' p' assume u: "u \<notin> X" "map_of (AList.delete v vs) u = Some (n', p')"
  then have ne: "u \<noteq> v" and e: "map_of vs u = Some (n', p')"
    by (auto simp: AList.delete_conv' split: if_splits)
  from counts_invD(4) [OF inv u(1) e] ne show "occ' u False \<le> n' \<and> occ' u True \<le> p'"
    by (simp add: occ')
  assume "Some u \<notin> fst ` set q"
  from counts_invD(5) [OF inv u(1) e this] ne
  show "n' = occ' u False \<and> p' = occ' u True \<and> (n' \<noteq> 0 \<or> p' \<noteq> 0)"
    by (auto simp: occ')
qed

lemma counts_inv_update:
  assumes inv: "counts_inv X q vs occ" and v: "v \<notin> X"
    and occ': "\<And>u b. occ' u b = occ u b - (if u = v \<and> b = par then 1 else 0)"
    and entry: "map_of vs v = Some (n, p)"
    and n': "n' = n - (if par then 0 else 1)" and p': "p' = p - (if par then 1 else 0)"
    and queue: "fst ` set q \<subseteq> fst ` set q'"
    and pending: "Some v \<in> fst ` set q' \<or> (if par then p' \<noteq> 0 else n' \<noteq> 0)"
  shows "counts_inv X q' (AList.update v (n', p') vs) occ'"
proof (rule counts_invI)
  show "distinct (map fst (AList.update v (n', p') vs))"
    using counts_invD(1) [OF inv] by (rule AList.distinct_update)
  show "map_of (AList.update v (n', p') vs) u = None" if "u \<in> X" for u
    using counts_invD(2) [OF inv that] that v by (auto simp: AList.update_conv')
next
  fix u assume u: "u \<notin> X" "map_of (AList.update v (n', p') vs) u = None"
  then have ne: "u \<noteq> v" and e: "map_of vs u = None"
    by (auto simp: AList.update_conv' split: if_splits)
  from counts_invD(3) [OF inv u(1) e] ne show "occ' u False = 0 \<and> occ' u True = 0"
    by (simp add: occ')
next
  fix u m k assume u: "u \<notin> X" "map_of (AList.update v (n', p') vs) u = Some (m, k)"
  show "occ' u False \<le> m \<and> occ' u True \<le> k"
  proof (cases "u = v")
    case True
    with u have "m = n'" "k = p'" by (simp_all add: AList.update_conv')
    with counts_invD(4) [OF inv v entry] show ?thesis
      unfolding True occ' n' p' by (cases par) auto
  next
    case False
    with u have e: "map_of vs u = Some (m, k)" by (simp add: AList.update_conv')
    from counts_invD(4) [OF inv u(1) e] False show ?thesis by (simp add: occ')
  qed
  assume nq': "Some u \<notin> fst ` set q'"
  with queue have nq: "Some u \<notin> fst ` set q" by blast
  show "m = occ' u False \<and> k = occ' u True \<and> (m \<noteq> 0 \<or> k \<noteq> 0)"
  proof (cases "u = v")
    case True
    with u have mk: "m = n'" "k = p'" by (simp_all add: AList.update_conv')
    from nq' True pending have nz: "if par then p' \<noteq> 0 else n' \<noteq> 0" by simp
    from counts_invD(5) [OF inv v entry] nq True
    have "n = occ v False \<and> p = occ v True" by simp
    with nz mk show ?thesis
      unfolding True occ' n' p' by (cases par) auto
  next
    case False
    with u have e: "map_of vs u = Some (m, k)" by (simp add: AList.update_conv')
    from counts_invD(5) [OF inv u(1) e nq] False show ?thesis by (auto simp: occ')
  qed
qed

lemma dict_get_key: "dict_get q k \<noteq> None \<Longrightarrow> k \<in> fst ` set q"
  by (auto simp: dict_get_def split: option.splits dest: map_of_SomeD intro: rev_image_eqI)

lemma update_keys: "fst ` set (AList.update k v q) = insert k (fst ` set q)"
  by (simp add: AList.dom_update)

lemma release_literal_inv:
  assumes inv: "counts_inv X q vs occ" and v: "v \<notin> X"
    and pos: "1 \<le> occ v par"
    and occ': "\<And>u b. occ' u b = occ u b - (if u = v \<and> b = par then 1 else 0)"
    and nonneg: "\<And>b. 0 \<le> occ' v b"
    and r: "release_literal v par vs q = (None, vs', q')"
  shows "counts_inv X q' vs' occ' \<and> fst ` set q \<subseteq> fst ` set q'"
proof -
  have "map_of vs v \<noteq> None"
  proof
    assume "map_of vs v = None"
    from counts_invD(3) [OF inv v this] pos show False by (cases par) auto
  qed
  then obtain n p where entry: "map_of vs v = Some (n, p)" by auto
  define n' where "n' = n - (if par then 0 else 1)"
  define p' where "p' = p - (if par then 1 else 0)"
  note upd = counts_inv_update [OF inv v occ' entry n'_def p'_def]
  note del = counts_inv_delete [OF inv v occ' nonneg entry]
  show ?thesis
  proof (cases par)
    case True
    with r entry have r': "(if p - 1 = 0 then
               (if n = 0 then (None, AList.delete v vs, q)
                else if dict_get q (Some v) = None then
                  (None, AList.update v (n, p - 1) vs,
                   AList.update (Some v) (Some False) q)
                else if dict_get q (Some v) = Some True then
                  (Some UnsatisfiedException, vs, q)
                else (None, AList.update v (n, p - 1) vs, q))
             else (None, AList.update v (n, p - 1) vs, q)) = (None, vs', q')"
      by (simp add: release_literal_def)
    from True have np: "n' = n" "p' = p - 1" by (simp_all add: n'_def p'_def)
    show ?thesis
    proof (cases "p - 1 = 0")
      case False
      with r' have "vs' = AList.update v (n', p') vs" "q' = q" by (simp_all add: np)
      with upd [of q] False True np show ?thesis by simp
    next
      case p0: True
      show ?thesis
      proof (cases "n = 0")
        case True
        with r' p0 have "vs' = AList.delete v vs" "q' = q" by simp_all
        with del True p0 \<open>par\<close> show ?thesis by simp
      next
        case False
        show ?thesis
        proof (cases "dict_get q (Some v) = None")
          case True
          with r' p0 False have "vs' = AList.update v (n', p') vs"
            "q' = AList.update (Some v) (Some False) q" by (simp_all add: np)
          with upd [of "AList.update (Some v) (Some False) q"] show ?thesis
            by (auto simp: update_keys)
        next
          case nn: False
          then have k: "Some v \<in> fst ` set q" by (rule dict_get_key)
          from r' p0 False nn have "vs' = AList.update v (n', p') vs" "q' = q"
            by (simp_all add: np split: if_splits)
          with upd [of q] k show ?thesis by simp
        qed
      qed
    qed
  next
    case False
    with r entry have r': "(if n - 1 = 0 then
               (if p = 0 then (None, AList.delete v vs, q)
                else if dict_get q (Some v) = None then
                  (None, AList.update v (n - 1, p) vs,
                   AList.update (Some v) (Some True) q)
                else if dict_get q (Some v) = Some False then
                  (Some UnsatisfiedException, vs, q)
                else (None, AList.update v (n - 1, p) vs, q))
             else (None, AList.update v (n - 1, p) vs, q)) = (None, vs', q')"
      by (simp add: release_literal_def)
    from False have np: "n' = n - 1" "p' = p" by (simp_all add: n'_def p'_def)
    show ?thesis
    proof (cases "n - 1 = 0")
      case nz: False
      with r' have "vs' = AList.update v (n', p') vs" "q' = q" by (simp_all add: np)
      with upd [of q] nz False np show ?thesis by simp
    next
      case n0: True
      show ?thesis
      proof (cases "p = 0")
        case True
        with r' n0 have "vs' = AList.delete v vs" "q' = q" by simp_all
        with del True n0 \<open>\<not> par\<close> show ?thesis by simp
      next
        case pz: False
        show ?thesis
        proof (cases "dict_get q (Some v) = None")
          case True
          with r' n0 pz have "vs' = AList.update v (n', p') vs"
            "q' = AList.update (Some v) (Some True) q" by (simp_all add: np)
          with upd [of "AList.update (Some v) (Some True) q"] show ?thesis
            by (auto simp: update_keys)
        next
          case nn: False
          then have k: "Some v \<in> fst ` set q" by (rule dict_get_key)
          from r' n0 pz nn have "vs' = AList.update v (n', p') vs" "q' = q"
            by (simp_all add: np split: if_splits)
          with upd [of q] k show ?thesis by simp
        qed
      qed
    qed
  qed
qed


lemma release_inv:
  assumes "counts_inv {x} q vs (plus_clause c occ)"
    and "distinct (map fst c)" and "\<And>u b. 0 \<le> occ u b"
    and "release x c vs q = (None, vs', q')"
  shows "counts_inv {x} q' vs' occ \<and> fst ` set q \<subseteq> fst ` set q'"
  using assms
proof (induction c arbitrary: vs q)
  case Nil
  from Nil.prems(1) have "counts_inv {x} q vs occ"
    by (rule counts_inv_cong) (simp add: plus_clause_def)
  with Nil.prems(4) show ?case by simp
next
  case (Cons l rest)
  obtain v par where l: "l = (v, par)" by (cases l)
  from Cons.prems(2) l have d: "distinct (map fst rest)" and fresh: "map_of rest v = None"
    by (auto simp: map_of_eq_None_iff)
  show ?case
  proof (cases "v = x")
    case True
    from Cons.prems(1) have inv: "counts_inv {x} q vs (plus_clause rest occ)"
      by (rule counts_inv_cong) (simp add: plus_clause_def l True)
    from Cons.prems(4) l True have "release x rest vs q = (None, vs', q')" by simp
    with Cons.IH [OF inv d Cons.prems(3)] show ?thesis by simp
  next
    case False
    obtain r1 vs1 q1 where r1: "release_literal v par vs q = (r1, vs1, q1)"
      by (cases "release_literal v par vs q")
    from Cons.prems(4) l False r1 have none: "r1 = None"
      and rest: "release x rest vs1 q1 = (None, vs', q')"
      by (auto split: option.splits)
    have step: "counts_inv {x} q1 vs1 (plus_clause rest occ) \<and> fst ` set q \<subseteq> fst ` set q1"
    proof (rule release_literal_inv [OF Cons.prems(1)])
      show "v \<notin> {x}" using False by simp
      show "1 \<le> plus_clause (l # rest) occ v par"
        using Cons.prems(3) [of v par] by (simp add: plus_clause_def l)
      show "plus_clause rest occ u b =
          plus_clause (l # rest) occ u b - (if u = v \<and> b = par then 1 else 0)" for u b
        using fresh by (auto simp: plus_clause_def l)
      show "0 \<le> plus_clause rest occ v b" for b
        using Cons.prems(3) [of v b] by (simp add: plus_clause_def)
      show "release_literal v par vs q = (None, vs1, q1)" using r1 none by simp
    qed
    with Cons.IH [OF _ d Cons.prems(3) rest, of ] show ?thesis by blast
  qed
qed


text \<open>A clause that shrinks to a unit clause is dropped while its variable waits in the queue.\<close>

lemma counts_inv_drop_queued:
  assumes inv: "counts_inv X q vs occ" and w: "Some w \<in> fst ` set q"
    and same: "\<And>u b. u \<noteq> w \<Longrightarrow> occ' u b = occ u b"
    and le: "\<And>b. occ' w b \<le> occ w b" and nonneg: "\<And>b. 0 \<le> occ' w b"
  shows "counts_inv X q vs occ'"
proof (rule counts_invI)
  show "distinct (map fst vs)" using inv by (rule counts_invD)
  show "map_of vs v = None" if "v \<in> X" for v using inv that by (rule counts_invD)
next
  fix u assume u: "u \<notin> X" "map_of vs u = None"
  show "occ' u False = 0 \<and> occ' u True = 0"
  proof (cases "u = w")
    case True
    from counts_invD(3) [OF inv u] le [of False] le [of True] nonneg [of False] nonneg [of True]
    show ?thesis unfolding True by simp
  next
    case False
    with counts_invD(3) [OF inv u] show ?thesis by (simp add: same)
  qed
next
  fix u n p assume u: "u \<notin> X" "map_of vs u = Some (n, p)"
  show "occ' u False \<le> n \<and> occ' u True \<le> p"
  proof (cases "u = w")
    case True
    from counts_invD(4) [OF inv u] le [of False] le [of True]
    show ?thesis unfolding True by simp
  next
    case False
    with counts_invD(4) [OF inv u] show ?thesis by (simp add: same)
  qed
  assume nq: "Some u \<notin> fst ` set q"
  with w have "u \<noteq> w" by auto
  with counts_invD(5) [OF inv u nq]
  show "n = occ' u False \<and> p = occ' u True \<and> (n \<noteq> 0 \<or> p \<noteq> 0)"
    by (auto simp: same)
qed

lemma singleton_list: "length xs = 1 \<Longrightarrow> xs = [hd xs]"
  by (cases xs) auto

lemma scan_clause_inv:
  assumes inv: "counts_inv {x} q vs (plus_clause c occ)"
    and d: "distinct (map fst c)" and nonneg: "\<And>u b. 0 \<le> occ u b"
    and s: "scan_clause x b c vs q = (None, vs', q', kept, c')"
  shows "(case kept of
            None \<Rightarrow> counts_inv {x} q' vs' occ
          | Some k \<Rightarrow> counts_inv {x} q' vs' (plus_clause k occ) \<and> distinct (map fst k) \<and>
              map_of k x = None) \<and>
         fst ` set q \<subseteq> fst ` set q'"
proof (cases "map_of c x")
  case None
  with s have "vs' = vs" "q' = q" "kept = Some c" by (auto simp: scan_clause_def)
  with inv d None show ?thesis by simp
next
  case (Some cv)
  show ?thesis
  proof (cases "Some cv = b")
    case True
    obtain r vs1 q1 where rel: "release x c vs q = (r, vs1, q1)"
      by (cases "release x c vs q")
    from True have b: "b = Some cv" by simp
    have "scan_clause x b c vs q = (r, vs1, q1, None, c)"
      unfolding scan_clause_def b using Some rel by simp
    with s have "(r, vs1, q1, None :: clause option, c) = (None, vs', q', kept, c')"
      by simp
    then have "r = None" "vs1 = vs'" "q1 = q'" "kept = None" by simp_all
    with rel have "release x c vs q = (None, vs', q')" and "kept = None" by simp_all
    with release_inv [OF inv d nonneg] show ?thesis by simp
  next
    case False
    define shrunk where "shrunk = AList.delete x c"
    have gone: "map_of shrunk x = None" by (simp add: shrunk_def AList.delete_conv')
    have dshrunk: "distinct (map fst shrunk)"
      unfolding shrunk_def using d by (rule AList.distinct_delete)
    have inv': "counts_inv {x} q vs (plus_clause shrunk occ)"
      using inv by (rule counts_inv_cong) (simp add: plus_clause_def shrunk_def AList.delete_conv')
    have eq: "scan_clause x b c vs q =
            (if length shrunk = 0 then (Some UnsatisfiedException, vs, q, None, shrunk)
             else if length shrunk = 1 then
               (case hd shrunk of (var, par) \<Rightarrow>
                  if dict_get q (Some var) = None then
                    (None, vs, AList.update (Some var) (Some par) q, None, shrunk)
                  else if Some par \<noteq> dict_get q (Some var) then
                    (Some UnsatisfiedException, vs, q, None, shrunk)
                  else (None, vs, q, None, shrunk))
             else (None, vs, q, Some shrunk, shrunk))"
      unfolding scan_clause_def shrunk_def Let_def using Some False by simp
    note s' = s [unfolded eq]
    show ?thesis
    proof (cases "length shrunk = 1")
      case False
      with s' have "vs' = vs" "q' = q" "kept = Some shrunk" by (auto split: if_splits)
      with inv' dshrunk gone show ?thesis by simp
    next
      case True
      obtain w par where hd: "hd shrunk = (w, par)" by (cases "hd shrunk")
      with True have unit: "shrunk = [(w, par)]" using singleton_list [of shrunk] by simp
      with gone have wx: "w \<noteq> x" by (auto split: if_splits)
      from s' True hd have vs': "vs' = vs" and kept: "kept = None"
        and q': "q' = (if dict_get q (Some w) = None then AList.update (Some w) (Some par) q else q)"
        by (auto split: if_splits)
      have sub: "fst ` set q \<subseteq> fst ` set q'" by (auto simp: q' update_keys)
      have w: "Some w \<in> fst ` set q'"
        using dict_get_key [of q "Some w"] by (auto simp: q' update_keys)
      have "counts_inv {x} q' vs (plus_clause shrunk occ)"
        using inv' by (rule counts_inv_queue) (use sub in blast)
      then have "counts_inv {x} q' vs occ"
      proof (rule counts_inv_drop_queued [OF _ w])
        show "occ u b = plus_clause shrunk occ u b" if "u \<noteq> w" for u b
          using that by (simp add: plus_clause_def unit)
        show "occ w b \<le> plus_clause shrunk occ w b" for b by (simp add: plus_clause_def)
        show "0 \<le> occ w b" for b by (rule nonneg)
      qed
      with vs' kept sub show ?thesis by simp
    qed
  qed
qed

lemma occurrences_append:
  "occurrences (xs @ ys) v b = occurrences xs v b + occurrences ys v b"
  by (simp add: occurrences_def)

lemma scan_inv:
  assumes "counts_inv {x} q vs (occurrences (new @ rest))"
    and "\<forall>c \<in> set (new @ rest). distinct (map fst c)"
    and "\<forall>c \<in> set new. map_of c x = None"
    and "scan x b rest vs q new seen = (None, vs', q', new', seen')"
  shows "counts_inv {x} q' vs' (occurrences new') \<and>
         (\<forall>c \<in> set new'. distinct (map fst c) \<and> map_of c x = None) \<and>
         fst ` set q \<subseteq> fst ` set q'"
  using assms
proof (induction rest arbitrary: vs q new seen)
  case Nil
  then show ?case by simp
next
  case (Cons c rest)
  obtain r1 vs1 q1 k1 c1 where s: "scan_clause x b c vs q = (r1, vs1, q1, k1, c1)"
    by (cases "scan_clause x b c vs q")
  from Cons.prems(4) s have r1: "r1 = None" by (auto split: option.splits)
  from Cons.prems(1) have inv: "counts_inv {x} q vs (plus_clause c (occurrences (new @ rest)))"
    by (rule counts_inv_cong) (simp add: plus_clause_def occurrences_append occurrences_Cons)
  from Cons.prems(2) have d: "distinct (map fst c)" by simp
  have nonneg: "0 \<le> occurrences (new @ rest) u b'" for u b' by (rule occurrences_nonneg)
  note step = scan_clause_inv [OF inv d nonneg s [unfolded r1]]
  show ?case
  proof (cases k1)
    case None
    with step have inv1: "counts_inv {x} q1 vs1 (occurrences (new @ rest))"
      and sub: "fst ` set q \<subseteq> fst ` set q1" by simp_all
    from Cons.prems(4) s r1 None
    have rest: "scan x b rest vs1 q1 new (seen @ [c1]) = (None, vs', q', new', seen')" by simp
    from Cons.prems(2) have d': "\<forall>c \<in> set (new @ rest). distinct (map fst c)" by simp
    from Cons.IH [OF inv1 d' Cons.prems(3) rest] sub show ?thesis by blast
  next
    case (Some k)
    with step have inv1: "counts_inv {x} q1 vs1 (plus_clause k (occurrences (new @ rest)))"
      and dk: "distinct (map fst k)" and kx: "map_of k x = None"
      and sub: "fst ` set q \<subseteq> fst ` set q1" by simp_all
    from inv1 have inv2: "counts_inv {x} q1 vs1 (occurrences ((new @ [k]) @ rest))"
      by (rule counts_inv_cong) (simp add: plus_clause_def occurrences_append occurrences_Cons)
    from Cons.prems(4) s r1 Some
    have rest: "scan x b rest vs1 q1 (new @ [k]) (seen @ [c1]) = (None, vs', q', new', seen')"
      by simp
    from Cons.prems(2) dk have d': "\<forall>c \<in> set ((new @ [k]) @ rest). distinct (map fst c)" by auto
    from Cons.prems(3) kx have x': "\<forall>c \<in> set (new @ [k]). map_of c x = None" by auto
    from Cons.IH [OF inv2 d' x' rest] sub show ?thesis by blast
  qed
qed


text \<open>One run of the loop of \<^verbatim>\<open>propagate\<close>: the entry taken from the queue.\<close>

lemma keys_butlast:
  assumes "q \<noteq> []" "last q = (k, v)"
  shows "fst ` set q = insert k (fst ` set (butlast q))"
proof -
  from assms have "q = butlast q @ [(k, v)]" by (metis append_butlast_last_id)
  then have "set q = insert (k, v) (set (butlast q))"
    by (metis Un_insert_right append_Nil2 list.simps(15) set_append)
  then show ?thesis by simp
qed

lemma counts_inv_pop:
  assumes inv: "counts_inv {} q vs occ" and q: "q \<noteq> []" "last q = (Some x, v)"
  shows "counts_inv {x} (butlast q) (AList.delete x vs) occ"
proof (rule counts_invI)
  show "distinct (map fst (AList.delete x vs))"
    using counts_invD(1) [OF inv] by (rule AList.distinct_delete)
  show "map_of (AList.delete x vs) u = None" if "u \<in> {x}" for u
    using that by (simp add: AList.delete_conv')
next
  fix u assume u: "u \<notin> {x}" "map_of (AList.delete x vs) u = None"
  then have "map_of vs u = None" by (simp add: AList.delete_conv')
  with counts_invD(3) [OF inv, of u] show "occ u False = 0 \<and> occ u True = 0" by simp
next
  fix u n p assume u: "u \<notin> {x}" "map_of (AList.delete x vs) u = Some (n, p)"
  then have e: "map_of vs u = Some (n, p)" by (simp add: AList.delete_conv')
  with counts_invD(4) [OF inv, of u n p] show "occ u False \<le> n \<and> occ u True \<le> p" by simp
  assume "Some u \<notin> fst ` set (butlast q)"
  with u(1) have "Some u \<notin> fst ` set q" unfolding keys_butlast [OF q] by simp
  with counts_invD(5) [OF inv _ e] show "n = occ u False \<and> p = occ u True \<and> (n \<noteq> 0 \<or> p \<noteq> 0)"
    by auto
qed

lemma counts_inv_skip:
  assumes inv: "counts_inv {} q vs occ" and q: "q \<noteq> []" "last q = (k, v)"
    and k: "k = None \<or> (\<exists>x. k = Some x \<and> map_of vs x = None)"
  shows "counts_inv {} (butlast q) vs occ"
  using inv
proof (rule counts_inv_queue)
  fix u assume "map_of vs u \<noteq> None" "Some u \<in> fst ` set q"
  with k show "Some u \<in> fst ` set (butlast q)" unfolding keys_butlast [OF q] by auto
qed

lemma counts_inv_close:
  assumes inv: "counts_inv {x} q vs occ" and x: "occ x False = 0" "occ x True = 0"
  shows "counts_inv {} q vs occ"
proof (rule counts_invI)
  show "distinct (map fst vs)" using inv by (rule counts_invD)
  show "map_of vs u = None" if "u \<in> {}" for u using that by simp
next
  fix u assume u: "map_of vs u = None"
  show "occ u False = 0 \<and> occ u True = 0"
  proof (cases "u = x")
    case True
    with x show ?thesis by simp
  next
    case False
    with counts_invD(3) [OF inv _ u] show ?thesis by simp
  qed
next
  fix u n p assume e: "map_of vs u = Some (n, p)"
  with counts_invD(2) [OF inv, of u] have ne: "u \<notin> {x}" by auto
  from counts_invD(4) [OF inv ne e] show "occ u False \<le> n \<and> occ u True \<le> p" .
  assume "Some u \<notin> fst ` set q"
  with counts_invD(5) [OF inv ne e] show "n = occ u False \<and> p = occ u True \<and> (n \<noteq> 0 \<or> p \<noteq> 0)"
    by auto
qed

lemma propagate_loop_inv:
  "counts_inv {} q (variables f) (occurrences (clauses f)) \<Longrightarrow>
   \<forall>c \<in> set (clauses f). distinct (map fst c) \<Longrightarrow>
   propagate_loop q a f = (Inr a', f') \<Longrightarrow> clauses f' \<noteq> [] \<Longrightarrow>
   counts_inv {} [] (variables f') (occurrences (clauses f')) \<and>
   (\<forall>c \<in> set (clauses f'). distinct (map fst c))"
proof (induction q a f rule: propagate_loop_induct)
  case (Nil a f)
  then show ?case by (simp add: propagate_loop_Nil)
next
  case (skip q k v a f)
  from skip.prems(1) skip.hyps(1,2,3)
  have A: "counts_inv {} (butlast q) (variables f) (occurrences (clauses f))"
    by (rule counts_inv_skip)
  from skip.prems(3) have B: "propagate_loop (butlast q) (AList.update k v a) f = (Inr a', f')"
    by (simp add: propagate_loop_skip [OF skip.hyps(1,2,3)])
  from A skip.prems(2) B skip.prems(4) show ?case by (rule skip.IH)
next
  case (raise q x v a f e vs' q' new seen)
  from raise.prems(3) show ?case by (simp add: propagate_loop_raise [OF raise.hyps])
next
  case (exit q x v a f vs' q' seen)
  from exit.prems(3,4) show ?case by (auto simp: propagate_loop_exit [OF exit.hyps])
next
  case (step q x v a f vs' q' new seen)
  from step.prems(1) step.hyps(1,2)
  have "counts_inv {x} (butlast q) (AList.delete x (variables f)) (occurrences (clauses f))"
    by (rule counts_inv_pop)
  then have start: "counts_inv {x} (butlast q) (AList.delete x (variables f))
      (occurrences ([] @ clauses f))" by simp
  from step.prems(2) have d: "\<forall>c \<in> set ([] @ clauses f). distinct (map fst c)" by simp
  have e: "\<forall>c \<in> set ([] :: clause list). map_of c x = None" by simp
  from scan_inv [OF start d e step.hyps(4)]
  have inv: "counts_inv {x} q' vs' (occurrences new)"
    and new: "\<forall>c \<in> set new. distinct (map fst c) \<and> map_of c x = None" by simp_all
  from new have "\<forall>c \<in> set new. x \<notin> fst ` set c" by (simp add: map_of_eq_None_iff)
  then have z: "occurrences new x b = 0" for b by (rule occurrences_absent)
  from inv z [of False] z [of True] have "counts_inv {} q' vs' (occurrences new)"
    by (rule counts_inv_close)
  then have 1: "counts_inv {} q' (variables \<lparr>variables = vs', clauses = new\<rparr>)
      (occurrences (clauses \<lparr>variables = vs', clauses = new\<rparr>))" by simp
  from new have 2: "\<forall>c \<in> set (clauses \<lparr>variables = vs', clauses = new\<rparr>). distinct (map fst c)"
    by simp
  from step.prems(3) have 3: "propagate_loop q' (AList.update (Some x) v a)
      \<lparr>variables = vs', clauses = new\<rparr> = (Inr a', f')"
    by (simp add: propagate_loop_step [OF step.hyps(1-5)])
  from 1 2 3 step.prems(4) show ?case by (rule step.IH)
qed

text \<open>
  A call that raises nothing and leaves a live clause keeps the invariant, and
  so does every sequence of calls, each on a formula with a live clause.
\<close>

lemma propagate_calls_inv:
  assumes "clauses f \<noteq> [] \<longrightarrow>
      formula_invariant f \<and> (\<forall>c \<in> set (clauses f). distinct (map fst c))"
    and "none_raises qs f"
  shows "clauses (propagate_calls qs f) \<noteq> [] \<longrightarrow>
      formula_invariant (propagate_calls qs f) \<and>
      (\<forall>c \<in> set (clauses (propagate_calls qs f)). distinct (map fst c))"
  using assms
proof (induction qs arbitrary: f)
  case Nil
  then show ?case by simp
next
  case (Cons q qs)
  obtain r f1 where p: "propagate q f = (r, f1)" by (cases "propagate q f")
  with Cons.prems(2) obtain a where r: "r = Inr a" and rest: "none_raises qs f1"
    by (cases r) auto
  have "clauses f1 \<noteq> [] \<longrightarrow>
      formula_invariant f1 \<and> (\<forall>c \<in> set (clauses f1). distinct (map fst c))"
  proof
    assume live: "clauses f1 \<noteq> []"
    from propagate_loop_shrinks [of q "[]" f] p
    have "length (clauses f1) \<le> length (clauses f)" by (simp add: propagate_def)
    with live have "clauses f \<noteq> []" by auto
    with Cons.prems(1) have inv: "counts_inv {} [] (variables f) (occurrences (clauses f))"
      and d: "\<forall>c \<in> set (clauses f). distinct (map fst c)"
      by (simp_all add: formula_invariant_counts)
    from inv have inv': "counts_inv {} q (variables f) (occurrences (clauses f))"
      by (rule counts_inv_queue) simp
    from p r have "propagate_loop q [] f = (Inr a, f1)" by (simp add: propagate_def)
    from propagate_loop_inv [OF inv' d this live]
    show "formula_invariant f1 \<and> (\<forall>c \<in> set (clauses f1). distinct (map fst c))"
      by (simp add: formula_invariant_counts)
  qed
  from Cons.IH [OF this rest] p show ?case by simp
qed

lemma formula_invariant_absent:
  "formula_invariant f \<Longrightarrow> map_of (variables f) v = None \<Longrightarrow>
     occurrences (clauses f) v False = 0 \<and> occurrences (clauses f) v True = 0"
  using counts_invD(3) [of "{}" "[]" "variables f" "occurrences (clauses f)" v]
  by (simp add: formula_invariant_counts)

lemma formula_invariant_present:
  "formula_invariant f \<Longrightarrow> map_of (variables f) v = Some (n, p) \<Longrightarrow>
     n = occurrences (clauses f) v False \<and> p = occurrences (clauses f) v True"
  using counts_invD(5) [of "{}" "[]" "variables f" "occurrences (clauses f)" v n p]
  by (simp add: formula_invariant_counts)

text \<open>The runs of \<^verbatim>\<open>propagate\<close> of the examples, and the formulas they start from.\<close>

lemmas propagate_eval = propagate_def propagate_loop.simps scan_clause_def release_literal_def
  dict_get_def merge_def Let_def

lemma example_early_exit:
  "propagate [(Some 2, Some False)]
     \<lparr>variables = [(1, 1, 1), (2, 1, 1)],
      clauses = [[(1, True), (2, True)], [(1, False), (2, False)]]\<rparr> =
   (Inr [(Some 2, Some False), (Some 1, Some True)],
    \<lparr>variables = [(1, 0, 1)], clauses = []\<rparr>)"
  by (simp add: propagate_eval)

lemma example_raise:
  "propagate [(Some 1, Some True)]
     \<lparr>variables = [(1, 1, 1)], clauses = [[(1, True)], [(1, False)]]\<rparr> =
   (Inl UnsatisfiedException, \<lparr>variables = [], clauses = [[(1, True)], []]\<rparr>)"
  by (simp add: propagate_eval)

lemma example_live:
  "propagate [(Some 1, Some True)]
     \<lparr>variables = [(1, 1, 1), (2, 0, 1), (3, 1, 1), (4, 0, 2), (5, 0, 1)],
      clauses = [[(1, True), (2, True)], [(1, False), (3, True), (4, True)],
                 [(3, False), (4, True), (5, True)]]\<rparr> =
   (Inr [(Some 1, Some True)],
    \<lparr>variables = [(3, 1, 1), (4, 0, 2), (5, 0, 1)],
     clauses = [[(3, True), (4, True)], [(3, False), (4, True), (5, True)]]\<rparr>)"
  by (simp add: propagate_eval)


lemma example_invariants:
  "formula_invariant \<lparr>variables = [(1, 1, 1), (2, 1, 1)],
      clauses = [[(1, True), (2, True)], [(1, False), (2, False)]]\<rparr>"
  "formula_invariant \<lparr>variables = [(1, 1, 1)], clauses = [[(1, True)], [(1, False)]]\<rparr>"
  "formula_invariant \<lparr>variables = [(1, 1, 1), (2, 0, 1), (3, 1, 1), (4, 0, 2), (5, 0, 1)],
      clauses = [[(1, True), (2, True)], [(1, False), (3, True), (4, True)],
                 [(3, False), (4, True), (5, True)]]\<rparr>"
proof -
  have 1: "Cnf_from_list [[(1, True), (2, True)], [(1, False), (2, False)]] 2 =
      Inr \<lparr>variables = [(1, 1, 1), (2, 1, 1)],
        clauses = [[(1, True), (2, True)], [(1, False), (2, False)]]\<rparr>"
    by (simp add: Cnf_from_list_def upto.simps)
  have 2: "Cnf_from_list [[(1, True)], [(1, False)]] 1 =
      Inr \<lparr>variables = [(1, 1, 1)], clauses = [[(1, True)], [(1, False)]]\<rparr>"
    by (simp add: Cnf_from_list_def upto.simps)
  have 3: "Cnf_from_list [[(1, True), (2, True)], [(1, False), (3, True), (4, True)],
                 [(3, False), (4, True), (5, True)]] 5 =
      Inr \<lparr>variables = [(1, 1, 1), (2, 0, 1), (3, 1, 1), (4, 0, 2), (5, 0, 1)],
      clauses = [[(1, True), (2, True)], [(1, False), (3, True), (4, True)],
                 [(3, False), (4, True), (5, True)]]\<rparr>"
    by (simp add: Cnf_from_list_def upto.simps)
  show "formula_invariant \<lparr>variables = [(1, 1, 1), (2, 1, 1)],
      clauses = [[(1, True), (2, True)], [(1, False), (2, False)]]\<rparr>"
    using Cnf_from_list_invariant [of "[[(1, True), (2, True)], [(1, False), (2, False)]]" 2]
    unfolding 1 by auto
  show "formula_invariant \<lparr>variables = [(1, 1, 1)], clauses = [[(1, True)], [(1, False)]]\<rparr>"
    using Cnf_from_list_invariant [of "[[(1, True)], [(1, False)]]" 1]
    unfolding 2 by auto
  show "formula_invariant \<lparr>variables = [(1, 1, 1), (2, 0, 1), (3, 1, 1), (4, 0, 2), (5, 0, 1)],
      clauses = [[(1, True), (2, True)], [(1, False), (3, True), (4, True)],
                 [(3, False), (4, True), (5, True)]]\<rparr>"
    using Cnf_from_list_invariant [of "[[(1, True), (2, True)], [(1, False), (3, True), (4, True)],
                 [(3, False), (4, True), (5, True)]]" 5]
    unfolding 3 by auto
qed

text \<open>
  Claim C3 says that after any sequence of calls of \<^verbatim>\<open>propagate\<close> on a Formula
  that satisfies the invariant, the counts of every variable in the index are
  its occurrences in the live clauses, and a variable outside the index occurs
  in no live clause.  Two calls show otherwise.  On the clauses \<open>1 \<or> 2\<close> and
  \<open>\<not>1 \<or> \<not>2\<close>, \<^verbatim>\<open>propagate({2: False})\<close> shortens the first clause to the unit
  clause \<open>1\<close>, drops it and queues variable 1, drops the second clause, and
  returns at the early exit: no live clause is left, and the index still has
  variable 1 with one positive occurrence.  On the clauses \<open>1\<close> and \<open>\<not>1\<close>,
  \<^verbatim>\<open>propagate({1: True})\<close> removes variable 1 from the index and raises at the
  second clause: the Formula keeps its list of clauses, in which the clause \<open>1\<close>
  is live.
\<close>

theorem propagate_invariant_counterexample:
  "formula_invariant \<lparr>variables = [(1, 1, 1), (2, 1, 1)],
      clauses = [[(1, True), (2, True)], [(1, False), (2, False)]]\<rparr> \<and>
   propagate [(Some 2, Some False)]
     \<lparr>variables = [(1, 1, 1), (2, 1, 1)],
      clauses = [[(1, True), (2, True)], [(1, False), (2, False)]]\<rparr> =
   (Inr [(Some 2, Some False), (Some 1, Some True)],
    \<lparr>variables = [(1, 0, 1)], clauses = []\<rparr>) \<and>
   map_of (variables \<lparr>variables = [(1, 0, 1)], clauses = []\<rparr>) 1 = Some (0, 1) \<and>
   occurrences (clauses \<lparr>variables = [(1, 0, 1)], clauses = []\<rparr>) 1 True = 0 \<and>
   \<not> formula_invariant \<lparr>variables = [(1, 0, 1)], clauses = []\<rparr> \<and>
   formula_invariant \<lparr>variables = [(1, 1, 1)], clauses = [[(1, True)], [(1, False)]]\<rparr> \<and>
   propagate [(Some 1, Some True)]
     \<lparr>variables = [(1, 1, 1)], clauses = [[(1, True)], [(1, False)]]\<rparr> =
   (Inl UnsatisfiedException, \<lparr>variables = [], clauses = [[(1, True)], []]\<rparr>) \<and>
   map_of (variables \<lparr>variables = [], clauses = [[(1, True)], []]\<rparr>) 1 = None \<and>
   occurrences (clauses \<lparr>variables = [], clauses = [[(1, True)], []]\<rparr>) 1 True = 1 \<and>
   \<not> formula_invariant \<lparr>variables = [], clauses = [[(1, True)], []]\<rparr>"
proof -
  have a: "\<not> formula_invariant \<lparr>variables = [(1, 0, 1)], clauses = []\<rparr>"
    using formula_invariant_present [of "\<lparr>variables = [(1, 0, 1)], clauses = []\<rparr>" 1 0 1]
    by auto
  have b: "\<not> formula_invariant \<lparr>variables = [], clauses = [[(1, True)], []]\<rparr>"
    using formula_invariant_absent [of "\<lparr>variables = [], clauses = [[(1, True)], []]\<rparr>" 1]
    by (auto simp: occurrences_def)
  show ?thesis
    using a b example_invariants(1,2) example_early_exit example_raise
    by (simp add: occurrences_def)
qed

text \<open>
  Claim C3 as amended: after any sequence of calls of \<^verbatim>\<open>propagate\<close>, none of
  which raises, on a Formula that satisfies the invariant, a variable outside
  the index occurs in no live clause, and, if a live clause is left, the
  counts of every variable in the index are its occurrences in the live
  clauses.  (The clauses are dictionaries: no clause holds a variable twice.)
\<close>

theorem propagate_keeps_invariant:
  assumes "formula_invariant f" and "\<forall>c \<in> set (clauses f). distinct (map fst c)"
    and "none_raises qs f"
  shows "(\<forall>v. map_of (variables (propagate_calls qs f)) v = None \<longrightarrow>
            occurrences (clauses (propagate_calls qs f)) v False = 0 \<and>
            occurrences (clauses (propagate_calls qs f)) v True = 0) \<and>
         (clauses (propagate_calls qs f) \<noteq> [] \<longrightarrow> formula_invariant (propagate_calls qs f))"
proof -
  let ?f = "propagate_calls qs f"
  from assms have live: "clauses ?f \<noteq> [] \<longrightarrow>
      formula_invariant ?f \<and> (\<forall>c \<in> set (clauses ?f). distinct (map fst c))"
    by (intro propagate_calls_inv) simp_all
  have "occurrences (clauses ?f) v False = 0 \<and> occurrences (clauses ?f) v True = 0"
    if "map_of (variables ?f) v = None" for v
  proof (cases "clauses ?f = []")
    case True
    then show ?thesis by simp
  next
    case False
    with live have "formula_invariant ?f" by simp
    then show ?thesis using that by (rule formula_invariant_absent)
  qed
  with live show ?thesis by blast
qed

text \<open>The amended claim on three clauses over five variables and the call for \<open>1 := True\<close>.\<close>

theorem propagate_keeps_invariant_witness:
  "formula_invariant
     (propagate_calls [[(Some 1, Some True)]]
        \<lparr>variables = [(1, 1, 1), (2, 0, 1), (3, 1, 1), (4, 0, 2), (5, 0, 1)],
         clauses = [[(1, True), (2, True)], [(1, False), (3, True), (4, True)],
                    [(3, False), (4, True), (5, True)]]\<rparr>)"
  using propagate_keeps_invariant [of
      "\<lparr>variables = [(1, 1, 1), (2, 0, 1), (3, 1, 1), (4, 0, 2), (5, 0, 1)],
         clauses = [[(1, True), (2, True)], [(1, False), (3, True), (4, True)],
                    [(3, False), (4, True), (5, True)]]\<rparr>"
      "[[(Some 1, Some True)]]"]
    example_invariants(3)
  by (simp add: example_live)

end
